theory Spec2Isabelle
  imports Complex_Main "HOL-Library.Multiset" "HOL-Library.List_Lexorder" "HOL-Library.Char_ord"
begin

section \<open>Data model of the tournament engine (src/arena.py)\<close>

text \<open>
  The engine keeps one Python dict as its state. The dict is modelled as a record that
  holds every key either mode uses; the code of a mode reads and writes only the keys of
  that mode. Dicts keyed by item (\<open>players\<close>, \<open>original_filenames\<close>) are association lists
  in insertion order, the order in which Python iterates them; their keys are distinct.
  Python integers are \<open>int\<close>; the match cursor starts at 0 and is only ever incremented,
  so it is a \<open>nat\<close>. Scores are sums of 0, 0.5 and 1.0 and are kept as exact rationals.
\<close>

type_synonym item = string

datatype mode = Elimination | RatingRoundRobin | OtherMode

datatype status = Active | Winner | Eliminated

datatype outcome = A | B | TIE

datatype py_error = IndexError | KeyError | OverflowError

record player =
  status :: status
  eliminated_in_round :: "int option"
  elo :: int
  score :: rat
  matches :: int

record state =
  mode :: mode
  original_filenames :: "(item \<times> string) list"
  players :: "(item \<times> player) list"
  matchups :: "(item \<times> item) list"
  current_match_index :: nat
  round_no :: int
  total_rounds :: int
  current_round :: int
  match_history :: "(item \<times> item) set"
  matchups_this_round :: "(item \<times> item) list"

text \<open>
  \<open>random.shuffle\<close> is a parameter of every operation that shuffles: a function from the
  list to its shuffled order. One call of an operation shuffles lists that are pairwise
  different (the non-empty score brackets of one dict), so a function of the list can
  return any combination of orders. A shuffle permutes its argument.
\<close>

type_synonym shuffle = "item list \<Rightarrow> item list"

definition is_shuffle :: "shuffle \<Rightarrow> bool" where
  "is_shuffle sh = (\<forall>xs. mset (sh xs) = mset xs)"

section \<open>Rating update (calculate_elo, lines 42-48)\<close>

text \<open>
  Python's \<open>round\<close> on a float returns the nearest integer and, at a tie, the even one.
  \<open>10**x\<close> raises \<open>OverflowError\<close> when the power is beyond the largest double,
  \<open>float_max\<close>. The values themselves are computed on the reals here: the rounding error
  of floating-point arithmetic, and with it the ratings a float cannot hold exactly, are not
  part of this model. No theorem below is about the values \<open>calculate_elo\<close> returns.
\<close>

definition py_round :: "real \<Rightarrow> int" where
  "py_round x =
     (let f = \<lfloor>x\<rfloor>; d = x - of_int f
      in if d < 1/2 then f else if 1/2 < d then f + 1 else if even f then f else f + 1)"

definition float_max :: real where
  "float_max = (2 ^ 53 - 1) * 2 ^ 971"

definition calculate_elo :: "real \<Rightarrow> real \<Rightarrow> real \<Rightarrow> py_error + int \<times> int" where
  "calculate_elo player_a_rating player_b_rating result =
     (let k_factor = 32;
          power = 10 powr ((player_b_rating - player_a_rating) / 400)
      in if float_max < power then Inl OverflowError
         else
           (let expected_a = 1 / (1 + power);
                expected_b = 1 - expected_a;
                new_rating_a = player_a_rating + k_factor * (result - expected_a);
                new_rating_b = player_b_rating + k_factor * ((1 - result) - expected_b)
            in Inr (py_round new_rating_a, py_round new_rating_b)))"

section \<open>Swiss pairing (create_swiss_pairings and has_played, lines 51-81)\<close>

definition has_played :: "item \<Rightarrow> item \<Rightarrow> state \<Rightarrow> bool" where
  "has_played p1 p2 s = ((p1, p2) \<in> match_history s \<or> (p2, p1) \<in> match_history s)"

text \<open>
  The inner loop (lines 70-75) walks an even-length bracket two at a time. It returns the
  matches it appends to \<open>new_matchups\<close> and the items it appends to \<open>unpaired_players\<close>.
  The bracket it is given has even length: line 68 has removed the odd item.
\<close>

fun pair_bracket :: "state \<Rightarrow> item list \<Rightarrow> (item \<times> item) list \<times> item list" where
  "pair_bracket s (p1 # p2 # rest) =
     (let (ms, un) = pair_bracket s rest
      in if \<not> has_played p1 p2 s then ((p1, p2) # ms, un) else (ms, p1 # p2 # un))"
| "pair_bracket s _ = ([], [])"

text \<open>
  The outer loop (lines 61-75) over the score brackets, highest score first. Its loop
  state is \<open>unpaired_players\<close> and \<open>new_matchups\<close>.
\<close>

fun swiss_loop ::
  "shuffle \<Rightarrow> state \<Rightarrow> item list list \<Rightarrow> item list \<Rightarrow> (item \<times> item) list \<Rightarrow> (item \<times> item) list"
where
  "swiss_loop sh s [] unpaired_players new_matchups = new_matchups"
| "swiss_loop sh s (b # bs) unpaired_players new_matchups =
     (let bracket = unpaired_players @ sh b;
          odd_len = (length bracket mod 2 \<noteq> 0);
          popped = (if odd_len then [last bracket] else []);
          bracket' = (if odd_len then butlast bracket else bracket);
          (ms, un) = pair_bracket s bracket'
      in swiss_loop sh s bs (popped @ un) (new_matchups @ ms))"

definition players_by_score :: "state \<Rightarrow> rat \<Rightarrow> item list" where
  "players_by_score s sc = map fst (filter (\<lambda>(p_id, data). score data = sc) (players s))"

definition sorted_scores :: "state \<Rightarrow> rat list" where
  "sorted_scores s = rev (sort (remdups (map (\<lambda>(p_id, data). score data) (players s))))"

definition create_swiss_pairings :: "shuffle \<Rightarrow> state \<Rightarrow> (item \<times> item) list" where
  "create_swiss_pairings sh s =
     swiss_loop sh s (map (players_by_score s) (sorted_scores s)) [] []"

text \<open>The items of a list of matches, in order.\<close>

definition items_of :: "(item \<times> item) list \<Rightarrow> item list" where
  "items_of ms = concat (map (\<lambda>(p1, p2). [p1, p2]) ms)"

text \<open>
  The two halves of lines 67-68: the bracket without its odd item, and the odd item that
  \<open>bracket.pop(-1)\<close> moves to \<open>unpaired_players\<close>.
\<close>

definition even_part :: "item list \<Rightarrow> item list" where
  "even_part xs = (if length xs mod 2 \<noteq> 0 then butlast xs else xs)"

definition popped :: "item list \<Rightarrow> item list" where
  "popped xs = (if length xs mod 2 \<noteq> 0 then [last xs] else [])"

text \<open>
  The value of \<open>unpaired_players\<close> after the loop body has run on the bracket \<open>br\<close>: the
  list carried forward to the next bracket.
\<close>

definition carry_forward :: "shuffle \<Rightarrow> state \<Rightarrow> item list \<Rightarrow> item list \<Rightarrow> item list" where
  "carry_forward sh s unpaired_players br =
     popped (unpaired_players @ sh br) @
     snd (pair_bracket s (even_part (unpaired_players @ sh br)))"

section \<open>Dicts, slices and file names\<close>

text \<open>
  \<open>dict_update k f d\<close> changes the value stored under the key \<open>k\<close> in place,
  \<open>dict_set k v d\<close> is the assignment \<open>d[k] = v\<close> (a new key goes to the end), and
  \<open>dict_comprehension\<close> is \<open>{kf(x): vf(x) for x in xs}\<close>.
\<close>

definition dict_update :: "'k \<Rightarrow> ('v \<Rightarrow> 'v) \<Rightarrow> ('k \<times> 'v) list \<Rightarrow> ('k \<times> 'v) list" where
  "dict_update k f d = map (\<lambda>(k', v). if k' = k then (k', f v) else (k', v)) d"

definition dict_set :: "'k \<Rightarrow> 'v \<Rightarrow> ('k \<times> 'v) list \<Rightarrow> ('k \<times> 'v) list" where
  "dict_set k v d = (if k \<in> fst ` set d then dict_update k (\<lambda>_. v) d else d @ [(k, v)])"

definition dict_comprehension :: "('a \<Rightarrow> 'k) \<Rightarrow> ('a \<Rightarrow> 'v) \<Rightarrow> 'a list \<Rightarrow> ('k \<times> 'v) list" where
  "dict_comprehension kf vf xs = foldl (\<lambda>d x. dict_set (kf x) (vf x) d) [] xs"

text \<open>The slice \<open>xs[::2]\<close>; \<open>xs[1::2]\<close> is \<open>every_second (tl xs)\<close>.\<close>

fun every_second :: "'a list \<Rightarrow> 'a list" where
  "every_second (x # y # rest) = x # every_second rest"
| "every_second xs = xs"

definition consecutive_pairs :: "'a list \<Rightarrow> ('a \<times> 'a) list" where
  "consecutive_pairs xs = zip (every_second xs) (every_second (tl xs))"

text \<open>
  \<open>str.endswith\<close>, and the extension tests of lines 84-85 and 205. \<open>str.lower\<close> is a
  parameter. \<open>Path(path).name\<close> is the part after the last slash (the paths are file
  paths, which do not end in a slash).
\<close>

definition endswith :: "string \<Rightarrow> string \<Rightarrow> bool" where
  "endswith str ext = (length ext \<le> length str \<and> drop (length str - length ext) str = ext)"

definition SUPPORTED_EXTENSIONS :: "string list" where
  "SUPPORTED_EXTENSIONS =
     [''.mp4'', ''.mov'', ''.avi'', ''.mkv'', ''.jpg'', ''.jpeg'', ''.png'', ''.bmp'', ''.webp'']"

definition is_media_file :: "(string \<Rightarrow> string) \<Rightarrow> string \<Rightarrow> bool" where
  "is_media_file lower filename = list_ex (\<lambda>ext. endswith (lower filename) ext) SUPPORTED_EXTENSIONS"

definition path_name :: "string \<Rightarrow> string" where
  "path_name path = rev (takeWhile (\<lambda>c. c \<noteq> CHR ''/'') (rev path))"

section \<open>The view returned to the user interface\<close>

text \<open>
  Every operation returns the state and ten component updates. \<open>gr.update()\<close> changes
  nothing (\<open>NoChange\<close>, \<open>Unchanged\<close>, \<open>None\<close> for a button), \<open>gr.update(visible=False)\<close>
  hides a component and \<open>gr.update(value=v, visible=True)\<close> shows \<open>v\<close>. The status texts
  are the constructors of \<open>info\<close>, with the numbers the text displays. The view keeps the
  status text, the two media, the three vote buttons, the ranking table and the champion;
  the two champion components (video and image) are one field, and the visibility of the
  video controls, which depends on the file extension only, is left out.

  A ranking table is given by the rows of its data frame in the order of the player dict,
  before \<open>sort_values\<close>: the component shows them sorted by the rating (\<open>EloTable\<close>)
  or by \<open>rank_order\<close> (\<open>BracketTable\<close>), highest first. \<open>sort_values\<close> does not
  fix the order of rows with equal keys, so it is a relation between the rows and the
  sorted rows: any list with the same rows whose keys do not increase.
\<close>

datatype info =
    Unchanged
  | InternalError
  | NotEnoughFiles
  | EloFinished
  | NoMorePairings
  | EloMatch int int nat nat
  | ChampionDecided
  | BracketMatch int nat nat

datatype 'a update = NoChange | Hidden | Shown 'a

datatype ranking =
    EloTable "(string \<times> int \<times> rat \<times> int) list"
  | BracketTable "(string \<times> int) list"


record view =
  info_text :: info
  left_media :: "item update"
  right_media :: "item update"
  left_btn :: "bool option"
  tie_btn :: "bool option"
  right_btn :: "bool option"
  ranking_table :: "ranking update"
  champion :: "item update"

definition no_change_view :: view where
  "no_change_view = \<lparr>info_text = Unchanged, left_media = NoChange, right_media = NoChange,
     left_btn = None, tie_btn = None, right_btn = None, ranking_table = NoChange,
     champion = NoChange\<rparr>"

text \<open>The updates after line 119, and \<open>set_updates\<close> of lines 121-124.\<close>

definition hidden_view :: view where
  "hidden_view = \<lparr>info_text = Unchanged, left_media = Hidden, right_media = Hidden,
     left_btn = Some False, tie_btn = Some False, right_btn = Some False,
     ranking_table = Hidden, champion = Hidden\<rparr>"

definition set_updates :: "info \<Rightarrow> bool \<Rightarrow> bool \<Rightarrow> bool \<Rightarrow> view \<Rightarrow> view" where
  "set_updates i l_vis t_vis r_vis updates =
     updates\<lparr>info_text := i, left_btn := Some l_vis, tie_btn := Some t_vis, right_btn := Some r_vis\<rparr>"

definition name_of :: "state \<Rightarrow> item \<Rightarrow> string" where
  "name_of s p = (case map_of (original_filenames s) p of None \<Rightarrow> ''N/A'' | Some n \<Rightarrow> n)"

section \<open>display_match (lines 114-178)\<close>

subsection \<open>Rating mode (lines 126-147)\<close>

text \<open>Lines 139-144: the match at the cursor. The index of line 140 raises out of range.\<close>

definition show_rating_match :: "state \<Rightarrow> view \<Rightarrow> py_error + view" where
  "show_rating_match s updates =
     (if current_round s \<le> total_rounds s \<and> matchups_this_round s \<noteq> [] then
        (if current_match_index s < length (matchups_this_round s) then
           (let (p1, p2) = matchups_this_round s ! current_match_index s;
                info = EloMatch (current_round s) (total_rounds s)
                         (current_match_index s + 1) (length (matchups_this_round s))
            in Inr ((set_updates info True True True updates)
                      \<lparr>left_media := Shown p1, right_media := Shown p2\<rparr>))
         else Inl IndexError)
      else Inr updates)"

text \<open>
  Lines 146-147: the rows of the rating table, which is shown sorted by rating. A data frame
  built from no rows has no columns, and sorting it by a column raises \<open>KeyError\<close>.
\<close>

definition rating_table :: "state \<Rightarrow> view \<Rightarrow> py_error + view" where
  "rating_table s updates =
     (if players s = [] then Inl KeyError
      else Inr (updates\<lparr>ranking_table := Shown (EloTable
             (map (\<lambda>(p, d). (name_of s p, elo d, score d, matches d)) (players s)))\<rparr>))"

definition finish_rating :: "state \<Rightarrow> view \<Rightarrow> py_error + (state option \<times> view)" where
  "finish_rating s updates =
     (case show_rating_match s updates of
        Inl e \<Rightarrow> Inl e
      | Inr u1 \<Rightarrow> (case rating_table s u1 of Inl e \<Rightarrow> Inl e | Inr u2 \<Rightarrow> Inr (Some s, u2)))"

text \<open>
  Lines 127-137. The call \<open>display_match(state)\<close> of line 132 is made when
  \<open>current_round > total_rounds\<close>, so it takes the branch of line 127 and returns from
  there; it is written out in place.
\<close>

definition display_rating :: "shuffle \<Rightarrow> state \<Rightarrow> py_error + (state option \<times> view)" where
  "display_rating sh s =
     (if current_round s > total_rounds s then
        finish_rating s (set_updates EloFinished False False False hidden_view)
      else if current_match_index s \<ge> length (matchups_this_round s) then
        (let s1 = s\<lparr>current_round := current_round s + 1\<rparr>
         in if current_round s1 > total_rounds s1 then
              finish_rating s1 (set_updates EloFinished False False False hidden_view)
            else
              (let s2 = s1\<lparr>matchups_this_round := create_swiss_pairings sh s1\<rparr>;
                   s3 = s2\<lparr>current_match_index := 0\<rparr>
               in if matchups_this_round s3 = [] then
                    finish_rating (s3\<lparr>current_round := total_rounds s3 + 1\<rparr>)
                      (set_updates NoMorePairings False False False hidden_view)
                  else finish_rating s3 hidden_view))
      else finish_rating s hidden_view)"

subsection \<open>Elimination mode (lines 149-176)\<close>

definition winners_of :: "state \<Rightarrow> item list" where
  "winners_of s = map fst (filter (\<lambda>(p, d). status d = Winner) (players s))"

text \<open>Lines 172-176: the match at the cursor, when there is one.\<close>

definition show_bracket_match :: "state \<Rightarrow> view \<Rightarrow> view" where
  "show_bracket_match s updates =
     (if current_match_index s < length (matchups s) then
        (let (p1, p2) = matchups s ! current_match_index s;
             info = BracketMatch (round_no s) (current_match_index s + 1) (length (matchups s))
         in (set_updates info True False True updates)
              \<lparr>left_media := Shown p1, right_media := Shown p2\<rparr>)
      else updates)"

text \<open>
  Lines 156-165: the champion's \<open>eliminated_in_round\<close> and the rows of the final table.
  Line 159 sorts them by \<open>rank_order\<close>, highest first, and lines 160-162 number the
  sorted rows from 1 and keep the number and the name (\<open>number_rows\<close>).
\<close>

definition rank_order :: "player \<Rightarrow> int" where
  "rank_order d = (case eliminated_in_round d of None \<Rightarrow> 0 | Some r \<Rightarrow> r)"

definition crown :: "item \<Rightarrow> state \<Rightarrow> state" where
  "crown winner_file s =
     s\<lparr>players := dict_update winner_file
          (\<lambda>d. d\<lparr>eliminated_in_round := Some (round_no s + 1)\<rparr>) (players s)\<rparr>"

definition ranking_data :: "state \<Rightarrow> (string \<times> int) list" where
  "ranking_data s = map (\<lambda>(p, d). (name_of s p, rank_order d)) (players s)"


text \<open>Lines 167-170: the next round, drawn from the winners.\<close>

definition advance_round :: "shuffle \<Rightarrow> state \<Rightarrow> state" where
  "advance_round sh s =
     (let winners = sh (winners_of s);
          s1 = s\<lparr>round_no := round_no s + 1, current_match_index := 0\<rparr>;
          s2 = s1\<lparr>players := foldl (\<lambda>ps p. dict_update p (\<lambda>d. d\<lparr>status := Active\<rparr>) ps)
                                (players s1) winners\<rparr>;
          s3 = s2\<lparr>matchups := consecutive_pairs winners\<rparr>
      in if length winners mod 2 \<noteq> 0
         then s3\<lparr>players := dict_update (last winners) (\<lambda>d. d\<lparr>status := Winner\<rparr>) (players s3)\<rparr>
         else s3)"

definition display_elimination :: "shuffle \<Rightarrow> state \<Rightarrow> state option \<times> view" where
  "display_elimination sh s =
     (if current_match_index s \<ge> length (matchups s) then
        (let winners = winners_of s
         in if length winners = 1 then
              (let winner_file = hd winners;
                   s1 = crown winner_file s
               in (Some s1,
                   (set_updates ChampionDecided False False False hidden_view)
                     \<lparr>ranking_table := Shown (BracketTable (ranking_data s1)),
                      champion := Shown winner_file\<rparr>))
            else
              (let s1 = advance_round sh s
               in (Some s1, show_bracket_match s1 hidden_view)))
      else (Some s, show_bracket_match s hidden_view))"

subsection \<open>The dispatch\<close>

text \<open>
  A state that is not a dict (\<open>None\<close> before a tournament has started) is \<open>None\<close>. For it,
  line 115 returns the retry message and leaves the other components alone.
\<close>

definition retry_view :: view where
  "retry_view = no_change_view\<lparr>info_text := InternalError\<rparr>"

definition display_match :: "shuffle \<Rightarrow> state option \<Rightarrow> py_error + (state option \<times> view)" where
  "display_match sh st =
     (case st of
        None \<Rightarrow> Inr (None, retry_view)
      | Some s \<Rightarrow>
          (case mode s of
             RatingRoundRobin \<Rightarrow> display_rating sh s
           | Elimination \<Rightarrow> Inr (display_elimination sh s)
           | OtherMode \<Rightarrow> Inr (Some s, hidden_view)))"

section \<open>vote (lines 180-202)\<close>

text \<open>
  \<open>apply_vote\<close> is the body of \<open>vote\<close> before its last line: the change a vote makes to
  the state. Indexing the match list past its end raises \<open>IndexError\<close>; looking up an item
  that has no player record raises \<open>KeyError\<close>; an error of \<open>calculate_elo\<close> is passed on. \<open>tuple(sorted((p1, p2)))\<close> orders the pair
  as strings.
\<close>

definition sorted_pair :: "item \<Rightarrow> item \<Rightarrow> item \<times> item" where
  "sorted_pair p1 p2 = (if p2 < p1 then (p2, p1) else (p1, p2))"

definition vote_rating :: "outcome \<Rightarrow> state \<Rightarrow> py_error + state" where
  "vote_rating outcome s =
     (if current_match_index s < length (matchups_this_round s) then
        (let (p1, p2) = matchups_this_round s ! current_match_index s;
             s1 = s\<lparr>match_history := insert (sorted_pair p1 p2) (match_history s)\<rparr>;
             (result, score1, score2) =
                (case outcome of A \<Rightarrow> (1, 1, 0) | B \<Rightarrow> (0, 0, 1) | TIE \<Rightarrow> (1/2, 1/2, 1/2))
         in case (map_of (players s1) p1, map_of (players s1) p2) of
              (Some d1, Some d2) \<Rightarrow>
                (case calculate_elo (of_int (elo d1)) (of_int (elo d2)) result of
                   Inl e \<Rightarrow> Inl e
                 | Inr (elo1, elo2) \<Rightarrow>
                     (let ps1 = dict_update p1
                                  (\<lambda>d. d\<lparr>elo := elo1, score := score d + score1,
                                         matches := matches d + 1\<rparr>)
                                  (players s1);
                          ps2 = dict_update p2
                                  (\<lambda>d. d\<lparr>elo := elo2, score := score d + score2,
                                         matches := matches d + 1\<rparr>)
                                  ps1
                      in Inr (s1\<lparr>players := ps2,
                                current_match_index := current_match_index s1 + 1\<rparr>)))
            | _ \<Rightarrow> Inl KeyError)
      else Inl IndexError)"

definition vote_elimination :: "outcome \<Rightarrow> state \<Rightarrow> py_error + state" where
  "vote_elimination outcome s =
     (if current_match_index s < length (matchups s) then
        (let (m0, m1) = matchups s ! current_match_index s;
             winner = (if outcome = A then m0 else m1);
             loser = (if outcome = A then m1 else m0)
         in if winner \<in> fst ` set (players s) \<and> loser \<in> fst ` set (players s) then
              (let ps1 = dict_update winner (\<lambda>d. d\<lparr>status := Winner\<rparr>) (players s);
                   ps2 = dict_update loser
                           (\<lambda>d. d\<lparr>status := Eliminated, eliminated_in_round := Some (round_no s)\<rparr>) ps1
               in Inr (s\<lparr>players := ps2, current_match_index := current_match_index s + 1\<rparr>))
            else Inl KeyError)
      else Inl IndexError)"

definition apply_vote :: "outcome \<Rightarrow> state \<Rightarrow> py_error + state" where
  "apply_vote outcome s =
     (if mode s = RatingRoundRobin then vote_rating outcome s
      else if mode s = Elimination \<and> outcome \<noteq> TIE then vote_elimination outcome s
      else Inr s)"

definition vote :: "outcome \<Rightarrow> shuffle \<Rightarrow> state option \<Rightarrow> py_error + (state option \<times> view)" where
  "vote outcome sh st =
     (case st of
        None \<Rightarrow> Inr (None, no_change_view)
      | Some s \<Rightarrow>
          (case apply_vote outcome s of
             Inl e \<Rightarrow> Inl e
           | Inr s' \<Rightarrow> display_match sh (Some s')))"

section \<open>start_tournament (lines 88-112)\<close>

text \<open>
  \<open>files_list\<close> is the list of the uploaded file names. The keys of the state that the
  chosen mode does not create are given fixed values here; the mode never reads them.
\<close>

definition blank_player :: player where
  "blank_player = \<lparr>status = Active, eliminated_in_round = None, elo = 0, score = 0, matches = 0\<rparr>"

definition initial_state :: "mode \<Rightarrow> string list \<Rightarrow> state" where
  "initial_state tournament_type files =
     \<lparr>mode = tournament_type, original_filenames = dict_comprehension id path_name files,
      players = [], matchups = [], current_match_index = 0, round_no = 0, total_rounds = 0,
      current_round = 0, match_history = {}, matchups_this_round = []\<rparr>"

definition start_elimination :: "shuffle \<Rightarrow> string list \<Rightarrow> state \<Rightarrow> state" where
  "start_elimination sh files0 s =
     (let files = sh files0;
          s1 = s\<lparr>players := dict_comprehension id (\<lambda>f. blank_player\<lparr>status := Active\<rparr>) files,
                 matchups := consecutive_pairs files, current_match_index := 0, round_no := 1\<rparr>
      in if length files mod 2 \<noteq> 0
         then s1\<lparr>players := dict_update (last files) (\<lambda>d. d\<lparr>status := Winner\<rparr>) (players s1)\<rparr>
         else s1)"

definition start_rating :: "shuffle \<Rightarrow> string list \<Rightarrow> int \<Rightarrow> state \<Rightarrow> state" where
  "start_rating sh files rounds s =
     (let s1 = s\<lparr>players := dict_comprehension id
                               (\<lambda>f. blank_player\<lparr>elo := 1500, score := 0, matches := 0\<rparr>) files,
                 total_rounds := rounds, current_round := 1, match_history := {},
                 matchups_this_round := [], current_match_index := 0\<rparr>
      in s1\<lparr>matchups_this_round := create_swiss_pairings sh s1\<rparr>)"

definition start_tournament ::
  "(string \<Rightarrow> string) \<Rightarrow> shuffle \<Rightarrow> string list \<Rightarrow> mode \<Rightarrow> int \<Rightarrow> py_error + (state option \<times> view)"
where
  "start_tournament lower sh files_list tournament_type rounds =
     (if files_list = [] then Inr (None, no_change_view)
      else
        (let files = filter (is_media_file lower) files_list
         in if length files < 2 then Inr (None, hidden_view\<lparr>info_text := NotEnoughFiles\<rparr>)
            else
              (let s = initial_state tournament_type files
               in display_match sh (Some
                    (case tournament_type of
                       Elimination \<Rightarrow> start_elimination sh files s
                     | RatingRoundRobin \<Rightarrow> start_rating sh files rounds s
                     | OtherMode \<Rightarrow> s)))))"

section \<open>Runs of the elimination bracket\<close>

text \<open>
  The status an item has in a state, a run of votes without the display in between, and
  the states an elimination tournament can be in: those that \<open>start_tournament\<close> returns
  for distinct file names, and those that the state change of a vote or \<open>display_match\<close>
  returns from them. \<open>vote\<close> is the one followed by the other.
\<close>

definition status_of :: "state \<Rightarrow> item \<Rightarrow> status option" where
  "status_of s p = map_option status (map_of (players s) p)"

fun apply_votes :: "outcome list \<Rightarrow> state \<Rightarrow> py_error + state" where
  "apply_votes [] s = Inr s"
| "apply_votes (outcome # rest) s =
     (case apply_vote outcome s of Inl e \<Rightarrow> Inl e | Inr s' \<Rightarrow> apply_votes rest s')"

inductive bracket_reachable :: "state \<Rightarrow> bool" where
  started: "is_shuffle sh \<Longrightarrow> distinct (filter (is_media_file lower) files_list) \<Longrightarrow>
            start_tournament lower sh files_list Elimination rounds = Inr (Some s, v) \<Longrightarrow>
            bracket_reachable s"
| voted: "bracket_reachable s \<Longrightarrow> apply_vote outcome s = Inr s' \<Longrightarrow> bracket_reachable s'"
| displayed: "bracket_reachable s \<Longrightarrow> is_shuffle sh \<Longrightarrow>
              display_match sh (Some s) = Inr (Some s', v) \<Longrightarrow> bracket_reachable s'"

text \<open>
  What holds in every such state: the keys of the player dict are distinct, no item is in
  two pending or decided matches of the round, the items of the matches still to be voted
  are active, the round counter is at least 1, a round that is over has a winner, and \<open>eliminated_in_round\<close> is set for
  the eliminated items, to a round that has been played, and for the champion.
\<close>

definition bracket_inv :: "state \<Rightarrow> bool" where
  "bracket_inv s =
     (mode s = Elimination \<and>
      1 \<le> round_no s \<and>
      distinct (map fst (players s)) \<and>
      distinct (items_of (matchups s)) \<and>
      (\<forall>p \<in> set (items_of (drop (current_match_index s) (matchups s))).
          status_of s p = Some Active) \<and>
      (current_match_index s < length (matchups s) \<or> winners_of s \<noteq> []) \<and>
      (\<forall>p d r. map_of (players s) p = Some d \<and> eliminated_in_round d = Some r \<longrightarrow>
          status d = Eliminated \<and> r \<le> round_no s \<or>
          winners_of s = [p] \<and> length (matchups s) \<le> current_match_index s \<and>
          r = round_no s + 1))"

text \<open>
  A round drawn from an odd number of items, in their shuffled order \<open>entering\<close>: the
  last one is the only winner and is in no match, the others are active and are paired
  two by two in their order.
\<close>

definition bye_round :: "item list \<Rightarrow> state \<Rightarrow> bool" where
  "bye_round entering s =
     (winners_of s = [last entering] \<and>
      last entering \<notin> set (items_of (matchups s)) \<and>
      items_of (matchups s) = butlast entering \<and>
      length (matchups s) = length entering div 2 \<and>
      (\<forall>i < length entering div 2. matchups s ! i = (entering ! (2 * i), entering ! (2 * i + 1))) \<and>
      (\<forall>p \<in> set (butlast entering). status_of s p = Some Active) \<and>
      current_match_index s = 0)"

section \<open>Example states\<close>

text \<open>
  Four rated players with equal scores, of whom the first two have already met.
\<close>

definition rated :: "int \<Rightarrow> rat \<Rightarrow> int \<Rightarrow> player" where
  "rated e sc m = blank_player\<lparr>elo := e, score := sc, matches := m\<rparr>"

definition swiss_example :: state where
  "swiss_example =
     \<lparr>mode = RatingRoundRobin, original_filenames = [], 
      players = [(''a'', rated 1516 1 1), (''b'', rated 1484 1 1),
                 (''c'', rated 1500 1 1), (''d'', rated 1500 1 1)],
      matchups = [], current_match_index = 1, round_no = 0, total_rounds = 3,
      current_round = 1, match_history = {(''a'', ''b'')},
      matchups_this_round = [(''a'', ''b'')]\<rparr>"

text \<open>
  Four rated players in three score brackets; the two leaders have already met.
\<close>

definition carry_example :: state where
  "carry_example =
     \<lparr>mode = RatingRoundRobin, original_filenames = [],
      players = [(''a'', rated 1530 2 2), (''b'', rated 1500 2 3),
                 (''c'', rated 1490 1 2), (''d'', rated 1480 0 1)],
      matchups = [], current_match_index = 0, round_no = 0, total_rounds = 5,
      current_round = 3, match_history = {(''a'', ''b'')},
      matchups_this_round = []\<rparr>"

text \<open>
  Two rated players who have met, at the end of round 1 of 3: no pairing is left.
\<close>

definition exhausted_example :: state where
  "exhausted_example =
     \<lparr>mode = RatingRoundRobin, original_filenames = [(''a'', ''a''), (''b'', ''b'')],
      players = [(''a'', rated 1516 1 1), (''b'', rated 1484 0 1)],
      matchups = [], current_match_index = 1, round_no = 0, total_rounds = 3,
      current_round = 1, match_history = {(''a'', ''b'')},
      matchups_this_round = [(''a'', ''b'')]\<rparr>"

text \<open>
  An elimination bracket of four items in its first round, and a bracket of two items
  after its only match: the cursor is at the end and one winner is left.
\<close>

definition bracket_player :: "status \<Rightarrow> int option \<Rightarrow> player" where
  "bracket_player st r = blank_player\<lparr>status := st, eliminated_in_round := r\<rparr>"

definition bracket_example :: state where
  "bracket_example =
     \<lparr>mode = Elimination,
      original_filenames = [(''a.png'', ''a.png''), (''b.png'', ''b.png''),
                            (''c.png'', ''c.png''), (''d.png'', ''d.png'')],
      players = [(''a.png'', bracket_player Active None), (''b.png'', bracket_player Active None),
                 (''c.png'', bracket_player Active None), (''d.png'', bracket_player Active None)],
      matchups = [(''a.png'', ''b.png''), (''c.png'', ''d.png'')], current_match_index = 0,
      round_no = 1, total_rounds = 0, current_round = 0, match_history = {},
      matchups_this_round = []\<rparr>"


text \<open>
  The bracket of four after its first vote, and after its second vote before the display;
  and a bracket of six whose first round has ended with three winners.
\<close>

definition mid_example :: state where
  "mid_example = bracket_example
     \<lparr>players := [(''a.png'', bracket_player Winner None), (''b.png'', bracket_player Eliminated (Some 1)),
                  (''c.png'', bracket_player Active None), (''d.png'', bracket_player Active None)],
      current_match_index := 1\<rparr>"

definition round_end_example :: state where
  "round_end_example = bracket_example
     \<lparr>players := [(''a.png'', bracket_player Winner None), (''b.png'', bracket_player Eliminated (Some 1)),
                  (''c.png'', bracket_player Winner None), (''d.png'', bracket_player Eliminated (Some 1))],
      current_match_index := 2\<rparr>"

definition three_winners_example :: state where
  "three_winners_example =
     \<lparr>mode = Elimination, original_filenames = [],
      players = [(''a'', bracket_player Winner None), (''b'', bracket_player Eliminated (Some 1)),
                 (''c'', bracket_player Winner None), (''d'', bracket_player Eliminated (Some 1)),
                 (''e'', bracket_player Winner None), (''f'', bracket_player Eliminated (Some 1))],
      matchups = [(''a'', ''b''), (''c'', ''d''), (''e'', ''f'')], current_match_index = 3,
      round_no = 1, total_rounds = 0, current_round = 0, match_history = {},
      matchups_this_round = []\<rparr>"


section \<open>Properties of the pairing\<close>

lemma pair_bracket_not_played:
  "(a, b) \<in> set (fst (pair_bracket s xs)) \<Longrightarrow> \<not> has_played a b s"
  by (induction s xs rule: pair_bracket.induct) (auto split: prod.splits if_splits)

lemma swiss_loop_step:
  "swiss_loop sh s (br # bs) un new =
     swiss_loop sh s bs
       (popped (un @ sh br) @ snd (pair_bracket s (even_part (un @ sh br))))
       (new @ fst (pair_bracket s (even_part (un @ sh br))))"
  by (simp add: Let_def case_prod_beta even_part_def popped_def)

lemma swiss_loop_not_played:
  "(a, b) \<in> set (swiss_loop sh s bs un new) \<Longrightarrow>
   (a, b) \<in> set new \<or> \<not> has_played a b s"
proof (induction bs arbitrary: un new)
  case Nil
  then show ?case by simp
next
  case (Cons br bs)
  from Cons.prems
  have "(a, b) \<in> set (new @ fst (pair_bracket s (even_part (un @ sh br)))) \<or>
        \<not> has_played a b s"
    unfolding swiss_loop_step by (rule Cons.IH)
  then show ?case
    using pair_bracket_not_played by auto
qed

lemma has_played_sym: "has_played a b s = has_played b a s"
  by (auto simp: has_played_def)

lemma pair_bracket_deferred:
  "2 * i + 1 < length xs \<Longrightarrow> has_played (xs ! (2 * i)) (xs ! (2 * i + 1)) s \<Longrightarrow>
   xs ! (2 * i) \<in> set (snd (pair_bracket s xs)) \<and> xs ! (2 * i + 1) \<in> set (snd (pair_bracket s xs))"
proof (induction s xs arbitrary: i rule: pair_bracket.induct)
  case (1 s p1 p2 rest)
  show ?case
  proof (cases i)
    case 0
    with "1.prems" show ?thesis by (simp add: case_prod_beta)
  next
    case (Suc j)
    with "1.prems" have "2 * j + 1 < length rest"
      and "has_played (rest ! (2 * j)) (rest ! (2 * j + 1)) s" by simp_all
    from "1.IH"[OF this] Suc show ?thesis
      by (simp add: case_prod_beta)
  qed
qed simp_all

lemma create_not_played:
  "(a, b) \<in> set (create_swiss_pairings sh s) \<Longrightarrow> \<not> has_played a b s"
  unfolding create_swiss_pairings_def using swiss_loop_not_played by fastforce

lemma pair_bracket_mset:
  "mset (items_of (fst (pair_bracket s xs))) + mset (snd (pair_bracket s xs)) \<subseteq># mset xs"
proof (induction s xs rule: pair_bracket.induct)
  case (1 s p1 p2 rest)
  then show ?case
    by (auto simp: case_prod_beta items_of_def)
qed (simp_all add: items_of_def)

lemma even_part_popped: "mset (even_part xs) + mset (popped xs) = mset xs"
proof (cases "xs = []")
  case True
  then show ?thesis by (simp add: even_part_def popped_def)
next
  case False
  then have "mset (butlast xs) + {#last xs#} = mset xs"
    by (metis append_butlast_last_id mset.simps(1) mset.simps(2) mset_append add_mset_add_single union_mset_add_mset_right add.right_neutral)
  then show ?thesis by (simp add: even_part_def popped_def)
qed

lemma items_of_append: "items_of (xs @ ys) = items_of xs @ items_of ys"
  by (simp add: items_of_def)

lemma swiss_loop_mset:
  "is_shuffle sh \<Longrightarrow>
   mset (items_of (swiss_loop sh s bs un new)) \<subseteq># mset (items_of new) + mset un + mset (concat bs)"
proof (induction bs arbitrary: un new)
  case Nil
  then show ?case by simp
next
  case (Cons br bs)
  let ?b = "un @ sh br"
  let ?pb = "pair_bracket s (even_part ?b)"
  have sh: "mset (sh br) = mset br" using Cons.prems by (simp add: is_shuffle_def)
  have "mset (items_of (swiss_loop sh s (br # bs) un new)) \<subseteq>#
        mset (items_of (new @ fst ?pb)) + mset (popped ?b @ snd ?pb) + mset (concat bs)"
    unfolding swiss_loop_step by (rule Cons.IH[OF Cons.prems])
  also have "\<dots> = mset (items_of new) + (mset (items_of (fst ?pb)) + mset (snd ?pb)) + mset (popped ?b) + mset (concat bs)"
    by (simp add: items_of_append)
  also have "\<dots> \<subseteq># mset (items_of new) + mset (even_part ?b) + mset (popped ?b) + mset (concat bs)"
    using pair_bracket_mset[of s "even_part ?b"] by (simp add: mset_subset_eq_mono_add)
  also have "\<dots> = mset (items_of new) + mset ?b + mset (concat bs)"
    using even_part_popped[of ?b] by (simp add: add.assoc)
  also have "\<dots> = mset (items_of new) + mset un + mset (concat (br # bs))"
    by (simp add: sh)
  finally show ?case .
qed

lemma filter_split_mset:
  "(\<And>x. \<not> (P x \<and> Q x)) \<Longrightarrow> mset (filter P xs) + mset (filter Q xs) = mset (filter (\<lambda>x. P x \<or> Q x) xs)"
  by (induction xs) auto

lemma concat_groups_mset:
  "distinct ks \<Longrightarrow>
   mset (concat (map (\<lambda>k. filter (\<lambda>x. g x = k) xs) ks)) = mset (filter (\<lambda>x. g x \<in> set ks) xs)"
proof (induction ks)
  case Nil
  then show ?case by simp
next
  case (Cons k ks)
  then have "mset (concat (map (\<lambda>k. filter (\<lambda>x. g x = k) xs) (k # ks))) =
    mset (filter (\<lambda>x. g x = k) xs) + mset (filter (\<lambda>x. g x \<in> set ks) xs)" by simp
  also have "\<dots> = mset (filter (\<lambda>x. g x = k \<or> g x \<in> set ks) xs)"
    using Cons.prems by (intro filter_split_mset) auto
  finally show ?case by simp
qed

lemma brackets_mset:
  "mset (concat (map (players_by_score s) (sorted_scores s))) = mset (map fst (players s))"
proof -
  let ?g = "\<lambda>(p_id, data). score data"
  have d: "distinct (sorted_scores s)" by (simp add: sorted_scores_def)
  have set: "set (sorted_scores s) = ?g ` set (players s)" by (simp add: sorted_scores_def)
  have pbs: "players_by_score s = (\<lambda>k. map fst (filter (\<lambda>x. ?g x = k) (players s)))"
    by (rule ext) (simp add: players_by_score_def case_prod_unfold)
  have "concat (map (players_by_score s) (sorted_scores s)) =
        map fst (concat (map (\<lambda>k. filter (\<lambda>x. ?g x = k) (players s)) (sorted_scores s)))"
    by (simp add: pbs map_concat comp_def)
  then have "mset (concat (map (players_by_score s) (sorted_scores s))) =
        image_mset fst (mset (filter (\<lambda>x. ?g x \<in> set (sorted_scores s)) (players s)))"
    using concat_groups_mset[OF d, of ?g "players s"] by simp
  also have "filter (\<lambda>x. ?g x \<in> set (sorted_scores s)) (players s) = players s"
    unfolding set by (simp add: filter_id_conv)
  finally show ?thesis by simp
qed

lemma create_items_mset:
  "is_shuffle sh \<Longrightarrow> mset (items_of (create_swiss_pairings sh s)) \<subseteq># mset (map fst (players s))"
proof -
  assume "is_shuffle sh"
  from swiss_loop_mset[OF this, of s "map (players_by_score s) (sorted_scores s)" "[]" "[]"]
  have "mset (items_of (create_swiss_pairings sh s)) \<subseteq>#
        mset (concat (map (players_by_score s) (sorted_scores s)))"
    by (simp add: create_swiss_pairings_def items_of_def)
  then show ?thesis by (simp only: brackets_mset)
qed

lemma distinct_of_submset: "mset xs \<subseteq># mset ys \<Longrightarrow> distinct ys \<Longrightarrow> distinct xs"
proof -
  assume sub: "mset xs \<subseteq># mset ys" and d: "distinct ys"
  have le: "count (mset xs) a \<le> 1" for a
  proof -
    have "count (mset xs) a \<le> count (mset ys) a" using sub by (rule mset_subset_eq_count)
    also have "\<dots> \<le> 1" using d by (simp add: distinct_count_atmost_1)
    finally show ?thesis .
  qed
  have "count (mset xs) a = (if a \<in> set xs then 1 else 0)" for a
  proof (cases "a \<in> set xs")
    case True
    then have "0 < count (mset xs) a" by simp
    with le[of a] have "count (mset xs) a = 1" by linarith
    with True show ?thesis by simp
  next
    case False
    then show ?thesis by simp
  qed
  then show ?thesis by (simp only: distinct_count_atmost_1) simp
qed

lemma create_distinct:
  "is_shuffle sh \<Longrightarrow> distinct (map fst (players s)) \<Longrightarrow> distinct (items_of (create_swiss_pairings sh s))"
  by (rule distinct_of_submset[OF create_items_mset])


lemma swiss_example_pairings:
  "create_swiss_pairings (\<lambda>xs. xs) swiss_example = [(''c'', ''d'')]"
  by (simp add: create_swiss_pairings_def swiss_example_def sorted_scores_def players_by_score_def
      rated_def blank_player_def has_played_def Let_def)

lemma swiss_example_pairings_rev:
  "create_swiss_pairings rev swiss_example = [(''d'', ''c'')]"
  by (simp add: create_swiss_pairings_def swiss_example_def sorted_scores_def players_by_score_def
      rated_def blank_player_def has_played_def Let_def)

lemma carry_example_pairings:
  "create_swiss_pairings (\<lambda>xs. xs) carry_example = [(''c'', ''a''), (''b'', ''d'')]"
  by (simp add: create_swiss_pairings_def carry_example_def sorted_scores_def players_by_score_def
      rated_def blank_player_def has_played_def Let_def)

lemma carry_example_forward:
  "carry_forward (\<lambda>xs. xs) carry_example [] [''a'', ''b''] = [''a'', ''b'']"
  "carry_forward (\<lambda>xs. xs) carry_example [''a'', ''b''] [''c''] = [''c'', ''a'', ''b'']"
  "carry_forward (\<lambda>xs. xs) carry_example [''c'', ''a'', ''b''] [''d''] = []"
  by (simp_all add: carry_forward_def even_part_def popped_def has_played_def carry_example_def)

text \<open>
  Claim C1. A pair of items that is in \<open>match_history\<close> is never in the list that
  \<open>create_swiss_pairings\<close> returns, in either order, whatever the shuffle does. The loop
  over the brackets goes on with the list \<open>carry_forward\<close> as its unpaired players, and
  two adjacent items of a bracket that have already played are both on that list and are
  not made a match of the bracket: they are deferred to the next bracket.
\<close>

theorem no_rematch:
  assumes "(p, q) \<in> match_history s"
  shows "(p, q) \<notin> set (create_swiss_pairings sh s) \<and>
         (q, p) \<notin> set (create_swiss_pairings sh s) \<and>
         (\<forall>un br bs new.
             swiss_loop sh s (br # bs) un new =
             swiss_loop sh s bs (carry_forward sh s un br)
               (new @ fst (pair_bracket s (even_part (un @ sh br))))) \<and>
         (\<forall>un br i. 2 * i + 1 < length (even_part (un @ sh br)) \<and>
             has_played (even_part (un @ sh br) ! (2 * i)) (even_part (un @ sh br) ! (2 * i + 1)) s \<longrightarrow>
             even_part (un @ sh br) ! (2 * i) \<in> set (carry_forward sh s un br) \<and>
             even_part (un @ sh br) ! (2 * i + 1) \<in> set (carry_forward sh s un br) \<and>
             (even_part (un @ sh br) ! (2 * i), even_part (un @ sh br) ! (2 * i + 1))
               \<notin> set (fst (pair_bracket s (even_part (un @ sh br)))))"
proof -
  from assms have "has_played p q s" "has_played q p s"
    by (simp_all add: has_played_def)
  then have "(p, q) \<notin> set (create_swiss_pairings sh s)" "(q, p) \<notin> set (create_swiss_pairings sh s)"
    using create_not_played by blast+
  moreover have "swiss_loop sh s (br # bs) un new =
             swiss_loop sh s bs (carry_forward sh s un br)
               (new @ fst (pair_bracket s (even_part (un @ sh br))))" for un br bs new
    unfolding carry_forward_def by (rule swiss_loop_step)
  moreover have "xs ! (2 * i) \<in> set (carry_forward sh s un br) \<and>
                 xs ! (2 * i + 1) \<in> set (carry_forward sh s un br) \<and>
                 (xs ! (2 * i), xs ! (2 * i + 1)) \<notin> set (fst (pair_bracket s xs))"
    if "xs = even_part (un @ sh br)" "2 * i + 1 < length xs"
       "has_played (xs ! (2 * i)) (xs ! (2 * i + 1)) s" for un br xs i
    using pair_bracket_deferred[OF that(2,3)] that(1,3) pair_bracket_not_played[of _ _ s xs]
    by (auto simp: carry_forward_def)
  ultimately show ?thesis by blast
qed

theorem no_rematch_witness:
  "(''a'', ''b'') \<in> match_history carry_example \<and>
   create_swiss_pairings (\<lambda>xs. xs) carry_example = [(''c'', ''a''), (''b'', ''d'')] \<and>
   (''a'', ''b'') \<notin> set (create_swiss_pairings (\<lambda>xs. xs) carry_example) \<and>
   (''b'', ''a'') \<notin> set (create_swiss_pairings (\<lambda>xs. xs) carry_example) \<and>
   swiss_loop (\<lambda>xs. xs) carry_example [[''a'', ''b''], [''c''], [''d'']] [] [] =
     swiss_loop (\<lambda>xs. xs) carry_example [[''c''], [''d'']] [''a'', ''b''] [] \<and>
   swiss_loop (\<lambda>xs. xs) carry_example [[''c''], [''d'']] [''a'', ''b''] [] =
     swiss_loop (\<lambda>xs. xs) carry_example [[''d'']] [''c'', ''a'', ''b''] [] \<and>
   ''a'' \<in> set (carry_forward (\<lambda>xs. xs) carry_example [] [''a'', ''b'']) \<and>
   ''b'' \<in> set (carry_forward (\<lambda>xs. xs) carry_example [] [''a'', ''b''])"
proof -
  have h: "(''a'', ''b'') \<in> match_history carry_example"
    by (simp add: carry_example_def)
  have pb: "fst (pair_bracket carry_example (even_part ([] @ [''a'', ''b'']))) = []"
    "fst (pair_bracket carry_example (even_part ([''a'', ''b''] @ [''c'']))) = []"
    by (simp_all add: even_part_def has_played_def carry_example_def)
  note t = no_rematch[OF h, of "\<lambda>xs. xs"]
  from t have l1: "swiss_loop (\<lambda>xs. xs) carry_example ([''a'', ''b''] # [[''c''], [''d'']]) [] [] =
     swiss_loop (\<lambda>xs. xs) carry_example [[''c''], [''d'']]
       (carry_forward (\<lambda>xs. xs) carry_example [] [''a'', ''b''])
       ([] @ fst (pair_bracket carry_example (even_part ([] @ [''a'', ''b'']))))"
    by blast
  from t have l2: "swiss_loop (\<lambda>xs. xs) carry_example ([''c''] # [[''d'']]) [''a'', ''b''] [] =
     swiss_loop (\<lambda>xs. xs) carry_example [[''d'']]
       (carry_forward (\<lambda>xs. xs) carry_example [''a'', ''b''] [''c''])
       ([] @ fst (pair_bracket carry_example (even_part ([''a'', ''b''] @ [''c'']))))"
    by blast
  from t have n: "(''a'', ''b'') \<notin> set (create_swiss_pairings (\<lambda>xs. xs) carry_example)"
    "(''b'', ''a'') \<notin> set (create_swiss_pairings (\<lambda>xs. xs) carry_example)"
    by blast+
  from l1 l2 show ?thesis
    unfolding pb carry_example_forward
    using h n carry_example_pairings by simp
qed


lemma items_of_filter_le:
  "distinct (items_of ms) \<Longrightarrow> length (filter (\<lambda>(a, b). a = x \<or> b = x) ms) \<le> 1"
proof (induction ms)
  case Nil
  then show ?case by simp
next
  case (Cons m ms)
  obtain a b where m: "m = (a, b)" by (cases m)
  have none: "filter (\<lambda>(a, b). a = x \<or> b = x) ms = []" if "x \<notin> set (items_of ms)"
    using that by (auto simp: items_of_def filter_empty_conv)
  from Cons.prems m have d: "distinct (items_of ms)" and ab: "a \<notin> set (items_of ms)" "b \<notin> set (items_of ms)"
    by (simp_all add: items_of_def)
  show ?case
  proof (cases "a = x \<or> b = x")
    case True
    with ab have "x \<notin> set (items_of ms)" by auto
    with none True m show ?thesis by simp
  next
    case False
    with Cons.IH[OF d] m show ?thesis by simp
  qed
qed

lemma items_of_no_self:
  "distinct (items_of ms) \<Longrightarrow> (a, b) \<in> set ms \<Longrightarrow> a \<noteq> b"
  by (induction ms) (auto simp: items_of_def)

text \<open>
  Claim C10. When the shuffle permutes its argument (and the keys of the player dict are
  distinct, as the keys of a dict are), the items of the matches that
  \<open>create_swiss_pairings\<close> returns are pairwise different: every item is in at most one
  match of the round, and no match pairs an item with itself.
\<close>

theorem disjoint_pairings:
  assumes "is_shuffle sh" and "distinct (map fst (players s))"
  shows "distinct (items_of (create_swiss_pairings sh s)) \<and>
         (\<forall>x. length (filter (\<lambda>(a, b). a = x \<or> b = x) (create_swiss_pairings sh s)) \<le> 1) \<and>
         (\<forall>a b. (a, b) \<in> set (create_swiss_pairings sh s) \<longrightarrow> a \<noteq> b)"
  using create_distinct[OF assms] items_of_filter_le items_of_no_self by blast

theorem disjoint_pairings_witness:
  "is_shuffle rev \<and> distinct (map fst (players swiss_example)) \<and>
   create_swiss_pairings rev swiss_example = [(''d'', ''c'')] \<and>
   distinct (items_of (create_swiss_pairings rev swiss_example)) \<and>
   length (filter (\<lambda>(a, b). a = ''c'' \<or> b = ''c'') (create_swiss_pairings rev swiss_example)) \<le> 1"
proof -
  have sh: "is_shuffle rev" by (simp add: is_shuffle_def)
  have d: "distinct (map fst (players swiss_example))" by (simp add: swiss_example_def)
  from disjoint_pairings[OF sh d] sh d swiss_example_pairings_rev show ?thesis by blast
qed


lemma pair_bracket_cong:
  "match_history s' = match_history s \<Longrightarrow> pair_bracket s' xs = pair_bracket s xs"
  by (induction s xs rule: pair_bracket.induct) (simp_all add: has_played_def)

lemma swiss_loop_cong:
  assumes "match_history s' = match_history s"
  shows "swiss_loop sh s' bs un new = swiss_loop sh s bs un new"
proof (induction bs arbitrary: un new)
  case Nil
  show ?case by simp
next
  case (Cons br bs)
  show ?case
    unfolding swiss_loop_step pair_bracket_cong[OF assms] by (rule Cons.IH)
qed

lemma create_swiss_pairings_cong:
  assumes "match_history s' = match_history s" and "players s' = players s"
  shows "create_swiss_pairings sh s' = create_swiss_pairings sh s"
proof -
  have "players_by_score s' = players_by_score s"
    by (rule ext) (simp add: players_by_score_def assms(2))
  moreover have "sorted_scores s' = sorted_scores s"
    by (simp add: sorted_scores_def assms(2))
  ultimately show ?thesis
    unfolding create_swiss_pairings_def swiss_loop_cong[OF assms(1)] by simp
qed

section \<open>Properties of the state machine\<close>

text \<open>
  Claim C4. In elimination mode, with a match at the cursor, a \<open>TIE\<close> vote returns the
  state it was given: no player record, match list, cursor or round counter changes. The
  view is again the match at the cursor.
\<close>

theorem tie_is_noop:
  assumes "mode s = Elimination" and "current_match_index s < length (matchups s)"
  shows "vote TIE sh (Some s) = Inr (Some s, show_bracket_match s hidden_view)"
  using assms by (simp add: vote_def apply_vote_def display_match_def display_elimination_def)

theorem tie_is_noop_witness:
  "mode bracket_example = Elimination \<and>
   current_match_index bracket_example < length (matchups bracket_example) \<and>
   vote TIE rev (Some bracket_example) =
     Inr (Some bracket_example, show_bracket_match bracket_example hidden_view) \<and>
   info_text (show_bracket_match bracket_example hidden_view) = BracketMatch 1 1 2"
proof -
  have m: "mode bracket_example = Elimination"
    and c: "current_match_index bracket_example < length (matchups bracket_example)"
    by (simp_all add: bracket_example_def)
  have i: "info_text (show_bracket_match bracket_example hidden_view) = BracketMatch 1 1 2"
    by (simp add: show_bracket_match_def bracket_example_def set_updates_def hidden_view_def)
  from tie_is_noop[OF m c, of rev] m c i show ?thesis by simp
qed


lemma finish_rating_done:
  "total_rounds s < current_round s \<Longrightarrow> players s \<noteq> [] \<Longrightarrow>
   \<exists>v. finish_rating s u = Inr (Some s, v) \<and> info_text v = info_text u \<and>
       left_media v = left_media u \<and> right_media v = right_media u \<and>
       left_btn v = left_btn u \<and> tie_btn v = tie_btn u \<and> right_btn v = right_btn u"
  by (simp add: finish_rating_def show_rating_match_def rating_table_def)

text \<open>
  Claim C6. In rating mode, when the round is exhausted, another round is due and the
  pairing drawn for it is empty, \<open>display_match\<close> sets \<open>current_round\<close> to
  \<open>total_rounds + 1\<close>, which completes the tournament (the next call reports the end),
  and the view carries the no-more-pairings text and no match. The state is that of a
  tournament: it has players.
\<close>

theorem forced_termination:
  assumes "mode s = RatingRoundRobin"
    and "current_round s \<le> total_rounds s"
    and "length (matchups_this_round s) \<le> current_match_index s"
    and "current_round s + 1 \<le> total_rounds s"
    and "create_swiss_pairings sh s = []"
    and "players s \<noteq> []"
  shows "\<exists>s' v. display_match sh (Some s) = Inr (Some s', v) \<and>
           current_round s' = total_rounds s + 1 \<and>
           total_rounds s' = total_rounds s \<and>
           total_rounds s' < current_round s' \<and>
           info_text v = NoMorePairings \<and>
           left_media v = Hidden \<and> right_media v = Hidden \<and>
           left_btn v = Some False \<and> tie_btn v = Some False \<and> right_btn v = Some False \<and>
           (\<exists>v'. display_match sh (Some s') = Inr (Some s', v') \<and> info_text v' = EloFinished)"
proof -
  define s1 where "s1 = s\<lparr>current_round := current_round s + 1\<rparr>"
  define s3 where "s3 = s1\<lparr>matchups_this_round := create_swiss_pairings sh s1, current_match_index := 0\<rparr>"
  define s4 where "s4 = s3\<lparr>current_round := total_rounds s3 + 1\<rparr>"
  have c1: "create_swiss_pairings sh s1 = []"
    using create_swiss_pairings_cong[of s1 s sh] assms(5) by (simp add: s1_def)
  have d: "display_match sh (Some s) =
           finish_rating s4 (set_updates NoMorePairings False False False hidden_view)"
    using assms(1-4) c1
    by (simp add: display_match_def display_rating_def Let_def s1_def s3_def s4_def)
  have s4: "total_rounds s4 < current_round s4" "players s4 \<noteq> []" "mode s4 = RatingRoundRobin"
    "current_round s4 = total_rounds s + 1" "total_rounds s4 = total_rounds s"
    using assms(1,6) by (simp_all add: s4_def s3_def s1_def)
  from finish_rating_done[OF s4(1,2), of "set_updates NoMorePairings False False False hidden_view"]
  obtain v where v: "finish_rating s4 (set_updates NoMorePairings False False False hidden_view) = Inr (Some s4, v)"
    "info_text v = NoMorePairings" "left_media v = Hidden" "right_media v = Hidden"
    "left_btn v = Some False" "tie_btn v = Some False" "right_btn v = Some False"
    by (auto simp: set_updates_def hidden_view_def)
  have d': "display_match sh (Some s4) =
           finish_rating s4 (set_updates EloFinished False False False hidden_view)"
    using s4(1,3) by (simp add: display_match_def display_rating_def)
  from finish_rating_done[OF s4(1,2), of "set_updates EloFinished False False False hidden_view"]
  obtain v' where v': "finish_rating s4 (set_updates EloFinished False False False hidden_view) = Inr (Some s4, v')"
    "info_text v' = EloFinished"
    by (auto simp: set_updates_def)
  from d v d' v' s4 show ?thesis by auto
qed

lemma exhausted_example_pairings: "create_swiss_pairings rev exhausted_example = []"
  by (simp add: create_swiss_pairings_def exhausted_example_def sorted_scores_def players_by_score_def
      rated_def blank_player_def has_played_def Let_def)

theorem forced_termination_witness:
  "mode exhausted_example = RatingRoundRobin \<and>
   current_round exhausted_example \<le> total_rounds exhausted_example \<and>
   length (matchups_this_round exhausted_example) \<le> current_match_index exhausted_example \<and>
   current_round exhausted_example + 1 \<le> total_rounds exhausted_example \<and>
   create_swiss_pairings rev exhausted_example = [] \<and>
   players exhausted_example \<noteq> [] \<and>
   (\<exists>s' v. display_match rev (Some exhausted_example) = Inr (Some s', v) \<and>
      current_round s' = 4 \<and> info_text v = NoMorePairings \<and> left_media v = Hidden)"
proof -
  have h: "mode exhausted_example = RatingRoundRobin"
    "current_round exhausted_example \<le> total_rounds exhausted_example"
    "length (matchups_this_round exhausted_example) \<le> current_match_index exhausted_example"
    "current_round exhausted_example + 1 \<le> total_rounds exhausted_example"
    "players exhausted_example \<noteq> []"
    by (simp_all add: exhausted_example_def)
  have t: "total_rounds exhausted_example + 1 = 4" by (simp add: exhausted_example_def)
  from forced_termination[OF h(1-4) exhausted_example_pairings h(5)] t
  have "\<exists>s' v. display_match rev (Some exhausted_example) = Inr (Some s', v) \<and>
      current_round s' = 4 \<and> info_text v = NoMorePairings \<and> left_media v = Hidden"
    by auto
  with h exhausted_example_pairings show ?thesis by blast
qed





lemma dict_update_keys: "map fst (dict_update k f d) = map fst d"
  by (induction d) (auto simp: dict_update_def)

lemma dict_update_empty: "dict_update k f d = [] \<longleftrightarrow> d = []"
  by (simp add: dict_update_def)

lemma map_of_key: "k \<in> fst ` set d \<Longrightarrow> \<exists>v. map_of d k = Some v"
  by (induction d) auto







section \<open>Properties of dicts and slices\<close>

lemma consecutive_pairs_Cons2:
  "consecutive_pairs (x # y # rest) = (x, y) # consecutive_pairs rest"
  by (cases rest) (simp_all add: consecutive_pairs_def)

lemma consecutive_pairs_small:
  "consecutive_pairs [] = []" "consecutive_pairs [x] = []"
  by (simp_all add: consecutive_pairs_def)

lemma length_consecutive_pairs: "length (consecutive_pairs xs) = length xs div 2"
  by (induction xs rule: every_second.induct)
     (simp_all add: consecutive_pairs_Cons2 consecutive_pairs_small)

lemma items_of_consecutive_pairs: "items_of (consecutive_pairs xs) = even_part xs"
proof (induction xs rule: every_second.induct)
  case (1 x y rest)
  then show ?case
    by (auto simp: consecutive_pairs_Cons2 items_of_def even_part_def)
qed (simp_all add: consecutive_pairs_small items_of_def even_part_def)

lemma nth_consecutive_pairs:
  "i < length xs div 2 \<Longrightarrow> consecutive_pairs xs ! i = (xs ! (2 * i), xs ! (2 * i + 1))"
proof (induction xs arbitrary: i rule: every_second.induct)
  case (1 x y rest)
  then show ?case
    by (cases i) (simp_all add: consecutive_pairs_Cons2)
qed simp_all

lemma map_of_dict_update:
  "map_of (dict_update k f d) k' = (if k' = k then map_option f (map_of d k) else map_of d k')"
  by (induction d) (auto simp: dict_update_def)

lemma map_of_foldl_update:
  assumes "\<And>x. f (f x) = f x"
  shows "map_of (foldl (\<lambda>ps p. dict_update p f ps) d ws) k =
         (if k \<in> set ws then map_option f (map_of d k) else map_of d k)"
proof (induction ws arbitrary: d)
  case Nil
  show ?case by simp
next
  case (Cons w ws)
  show ?case
    by (auto simp: Cons.IH map_of_dict_update assms option.map_comp comp_def)
qed

lemma keys_foldl_update:
  "map fst (foldl (\<lambda>ps p. dict_update p f ps) d ws) = map fst d"
  by (induction ws arbitrary: d) (simp_all add: dict_update_keys)

lemma dict_comprehension_distinct:
  assumes "distinct xs"
  shows "dict_comprehension id vf xs = map (\<lambda>x. (x, vf x)) xs"
proof -
  have "foldl (\<lambda>d x. dict_set (id x) (vf x) d) acc xs = acc @ map (\<lambda>x. (x, vf x)) xs"
    if "distinct xs" "set xs \<inter> fst ` set acc = {}" for acc
    using that
  proof (induction xs arbitrary: acc)
    case Nil
    show ?case by simp
  next
    case (Cons x xs)
    from Cons.prems have "x \<notin> fst ` set acc" by auto
    then have "dict_set x (vf x) acc = acc @ [(x, vf x)]" by (simp add: dict_set_def)
    moreover from Cons.prems have "distinct xs" "set xs \<inter> fst ` set (acc @ [(x, vf x)]) = {}"
      by auto
    ultimately show ?case using Cons.IH[of "acc @ [(x, vf x)]"] by simp
  qed
  from this[of "[]"] assms show ?thesis by (simp add: dict_comprehension_def)
qed

lemma winners_of_set:
  "distinct (map fst (players s)) \<Longrightarrow> set (winners_of s) = {p. status_of s p = Some Winner}"
proof -
  assume d: "distinct (map fst (players s))"
  have "p \<in> set (winners_of s) \<longleftrightarrow> status_of s p = Some Winner" for p
  proof
    assume "p \<in> set (winners_of s)"
    then obtain x where "(p, x) \<in> set (players s)" "status x = Winner"
      by (auto simp: winners_of_def)
    with d show "status_of s p = Some Winner" by (simp add: status_of_def)
  next
    assume "status_of s p = Some Winner"
    then obtain x where "map_of (players s) p = Some x" "status x = Winner"
      by (auto simp: status_of_def)
    then show "p \<in> set (winners_of s)"
      by (force simp: winners_of_def dest: map_of_SomeD)
  qed
  then show ?thesis by auto
qed

lemma winners_of_distinct:
  "distinct (map fst (players s)) \<Longrightarrow> distinct (winners_of s)"
  by (simp add: winners_of_def distinct_map_filter)

lemma length_winners_of:
  "distinct (map fst (players s)) \<Longrightarrow> length (winners_of s) = card {p. status_of s p = Some Winner}"
  using winners_of_set[of s] winners_of_distinct[of s] distinct_card[of "winners_of s"] by simp


section \<open>The steps of the elimination bracket\<close>

lemma shuffle_facts:
  assumes "is_shuffle sh"
  shows "set (sh xs) = set xs" "length (sh xs) = length xs" "distinct (sh xs) = distinct xs"
proof -
  from assms have m: "mset (sh xs) = mset xs" by (simp add: is_shuffle_def)
  show "set (sh xs) = set xs" using m by (rule mset_eq_setD)
  show "length (sh xs) = length xs" using m by (rule mset_eq_length)
  show "distinct (sh xs) = distinct xs" using m by (rule mset_eq_imp_distinct_iff)
qed

lemma even_part_butlast: "odd (length xs) \<Longrightarrow> even_part xs = butlast xs"
  by (simp add: even_part_def odd_iff_mod_2_eq_one)

lemma even_part_id: "even (length xs) \<Longrightarrow> even_part xs = xs"
  by (simp add: even_part_def even_iff_mod_2_eq_zero)

lemma set_even_part: "set (even_part xs) \<subseteq> set xs"
  by (auto simp: even_part_def dest: in_set_butlastD)

lemma distinct_even_part: "distinct xs \<Longrightarrow> distinct (even_part xs)"
  by (simp add: even_part_def distinct_butlast)

lemma last_not_in_butlast: "distinct xs \<Longrightarrow> xs \<noteq> [] \<Longrightarrow> last xs \<notin> set (butlast xs)"
  by (metis append_butlast_last_id distinct_append disjoint_iff list.set_intros(1))

lemma advance_round_fields:
  "map fst (players (advance_round sh s)) = map fst (players s)"
  "matchups (advance_round sh s) = consecutive_pairs (sh (winners_of s))"
  "current_match_index (advance_round sh s) = 0"
  "round_no (advance_round sh s) = round_no s + 1"
  "mode (advance_round sh s) = mode s"
  "original_filenames (advance_round sh s) = original_filenames s"
  by (simp_all add: advance_round_def Let_def dict_update_keys keys_foldl_update)

lemma advance_round_players:
  "map_of (players (advance_round sh s)) p =
     map_option (\<lambda>d. if p \<in> set (sh (winners_of s))
                      then d\<lparr>status := (if odd (length (sh (winners_of s))) \<and> p = last (sh (winners_of s))
                                         then Winner else Active)\<rparr>
                      else d)
       (map_of (players s) p)"
proof -
  let ?ws = "sh (winners_of s)"
  have idem: "\<And>x::player. (x\<lparr>status := Active\<rparr>)\<lparr>status := Active\<rparr> = x\<lparr>status := Active\<rparr>"
    by simp
  have f: "map_of (foldl (\<lambda>ps p. dict_update p (\<lambda>d. d\<lparr>status := Active\<rparr>) ps) (players s) ?ws) p =
        (if p \<in> set ?ws then map_option (\<lambda>d. d\<lparr>status := Active\<rparr>) (map_of (players s) p)
         else map_of (players s) p)"
    by (rule map_of_foldl_update) simp
  show ?thesis
  proof (cases "odd (length ?ws)")
    case True
    then have ne: "?ws \<noteq> []" by auto
    from True have "length ?ws mod 2 \<noteq> 0" by presburger
    then have "map_of (players (advance_round sh s)) p =
       map_of (dict_update (last ?ws) (\<lambda>d. d\<lparr>status := Winner\<rparr>)
          (foldl (\<lambda>ps p. dict_update p (\<lambda>d. d\<lparr>status := Active\<rparr>) ps) (players s) ?ws)) p"
      by (simp add: advance_round_def Let_def)
    with True ne f show ?thesis
      by (cases "map_of (players s) p") (auto simp: map_of_dict_update)
  next
    case False
    then have "length ?ws mod 2 = 0" by presburger
    then have "map_of (players (advance_round sh s)) p =
       map_of (foldl (\<lambda>ps p. dict_update p (\<lambda>d. d\<lparr>status := Active\<rparr>) ps) (players s) ?ws) p"
      by (simp add: advance_round_def Let_def)
    with False f show ?thesis
      by (cases "map_of (players s) p") auto
  qed
qed

lemma vote_elimination_result:
  assumes "current_match_index s < length (matchups s)"
    and "matchups s ! current_match_index s = (m0, m1)"
    and "m0 \<in> fst ` set (players s)" and "m1 \<in> fst ` set (players s)"
  shows "\<exists>s'. vote_elimination outcome s = Inr s' \<and>
           map fst (players s') = map fst (players s) \<and>
           matchups s' = matchups s \<and> round_no s' = round_no s \<and> mode s' = mode s \<and>
           original_filenames s' = original_filenames s \<and>
           current_match_index s' = current_match_index s + 1 \<and>
           (\<forall>p. map_of (players s') p =
             (if p = (if outcome = A then m1 else m0)
              then map_option (\<lambda>d. d\<lparr>status := Eliminated, eliminated_in_round := Some (round_no s)\<rparr>)
                     (map_of (players s) p)
              else if p = (if outcome = A then m0 else m1)
              then map_option (\<lambda>d. d\<lparr>status := Winner\<rparr>) (map_of (players s) p)
              else map_of (players s) p))"
  using assms
  by (cases "outcome = A")
     (auto simp: vote_elimination_def Let_def dict_update_keys map_of_dict_update option.map_comp comp_def)

lemma crown_fields:
  "map fst (players (crown w s)) = map fst (players s)"
  "matchups (crown w s) = matchups s"
  "current_match_index (crown w s) = current_match_index s"
  "round_no (crown w s) = round_no s"
  "mode (crown w s) = mode s"
  "original_filenames (crown w s) = original_filenames s"
  "map_of (players (crown w s)) p =
     (if p = w then map_option (\<lambda>d. d\<lparr>eliminated_in_round := Some (round_no s + 1)\<rparr>) (map_of (players s) p)
      else map_of (players s) p)"
  "status_of (crown w s) p = status_of s p"
  by (auto simp: crown_def dict_update_keys map_of_dict_update status_of_def option.map_comp comp_def)


lemma items_of_drop:
  "c < length ms \<Longrightarrow>
   items_of (drop c ms) = fst (ms ! c) # snd (ms ! c) # items_of (drop (Suc c) ms)"
  by (simp add: items_of_def Cons_nth_drop_Suc[symmetric] case_prod_beta)

lemma items_of_take_drop: "items_of ms = items_of (take c ms) @ items_of (drop c ms)"
  by (metis append_take_drop_id items_of_append)

lemma status_of_key: "status_of s p = Some st \<Longrightarrow> p \<in> fst ` set (players s)"
  by (auto simp: status_of_def dest: map_of_SomeD intro: rev_image_eqI)

lemma vote_step:
  assumes inv: "bracket_inv s" and c: "current_match_index s < length (matchups s)"
    and o: "outcome \<noteq> TIE"
  shows "\<exists>s' w l. apply_vote outcome s = Inr s' \<and>
      w = (if outcome = A then fst (matchups s ! current_match_index s)
           else snd (matchups s ! current_match_index s)) \<and>
      l = (if outcome = A then snd (matchups s ! current_match_index s)
           else fst (matchups s ! current_match_index s)) \<and>
      w \<noteq> l \<and> status_of s w = Some Active \<and> status_of s l = Some Active \<and>
      w \<notin> set (items_of (drop (Suc (current_match_index s)) (matchups s))) \<and>
      l \<notin> set (items_of (drop (Suc (current_match_index s)) (matchups s))) \<and>
      map fst (players s') = map fst (players s) \<and> matchups s' = matchups s \<and>
      round_no s' = round_no s \<and> mode s' = mode s \<and>
      original_filenames s' = original_filenames s \<and>
      current_match_index s' = current_match_index s + 1 \<and>
      (\<forall>p. map_of (players s') p =
         (if p = l
          then map_option (\<lambda>d. d\<lparr>status := Eliminated, eliminated_in_round := Some (round_no s)\<rparr>)
                 (map_of (players s) p)
          else if p = w then map_option (\<lambda>d. d\<lparr>status := Winner\<rparr>) (map_of (players s) p)
          else map_of (players s) p))"
proof -
  let ?c = "current_match_index s"
  obtain m0 m1 where m: "matchups s ! ?c = (m0, m1)" by (cases "matchups s ! ?c")
  from inv have mode: "mode s = Elimination"
    and d: "distinct (items_of (matchups s))"
    and act: "\<forall>p \<in> set (items_of (drop ?c (matchups s))). status_of s p = Some Active"
    by (simp_all add: bracket_inv_def)
  have drop: "items_of (drop ?c (matchups s)) = m0 # m1 # items_of (drop (Suc ?c) (matchups s))"
    using items_of_drop[OF c] m by simp
  from d have "distinct (items_of (drop ?c (matchups s)))"
    using items_of_take_drop[of "matchups s" ?c] by (metis distinct_append)
  with drop have ne: "m0 \<noteq> m1"
    and notin: "m0 \<notin> set (items_of (drop (Suc ?c) (matchups s)))"
               "m1 \<notin> set (items_of (drop (Suc ?c) (matchups s)))"
    by auto
  from act drop have a: "status_of s m0 = Some Active" "status_of s m1 = Some Active" by auto
  then have k: "m0 \<in> fst ` set (players s)" "m1 \<in> fst ` set (players s)"
    by (auto dest: status_of_key)
  from vote_elimination_result[OF c m k, of outcome] obtain s' where
    s': "vote_elimination outcome s = Inr s'" "map fst (players s') = map fst (players s)"
      "matchups s' = matchups s" "round_no s' = round_no s" "mode s' = mode s"
      "original_filenames s' = original_filenames s"
      "current_match_index s' = current_match_index s + 1"
      "\<forall>p. map_of (players s') p =
             (if p = (if outcome = A then m1 else m0)
              then map_option (\<lambda>d. d\<lparr>status := Eliminated, eliminated_in_round := Some (round_no s)\<rparr>)
                     (map_of (players s) p)
              else if p = (if outcome = A then m0 else m1)
              then map_option (\<lambda>d. d\<lparr>status := Winner\<rparr>) (map_of (players s) p)
              else map_of (players s) p)"
    by blast
  have av: "apply_vote outcome s = Inr s'"
    using mode o s'(1) by (simp add: apply_vote_def)
  show ?thesis
  proof (cases "outcome = A")
    case True
    with av s' m ne a notin show ?thesis by auto
  next
    case False
    with av s' m ne a notin show ?thesis by auto
  qed
qed


lemma vote_step_status:
  assumes "\<forall>p. map_of (players s') p =
         (if p = l
          then map_option (\<lambda>d. d\<lparr>status := Eliminated, eliminated_in_round := Some r\<rparr>)
                 (map_of (players s) p)
          else if p = w then map_option (\<lambda>d. d\<lparr>status := Winner\<rparr>) (map_of (players s) p)
          else map_of (players s) p)"
    and "status_of s w = Some Active" and "status_of s l = Some Active"
  shows "status_of s' p = (if p = l then Some Eliminated else if p = w then Some Winner else status_of s p)"
  using assms by (auto simp: status_of_def)

lemma inv_vote:
  assumes inv: "bracket_inv s" and av: "apply_vote outcome s = Inr s'"
  shows "bracket_inv s'"
proof (cases "outcome = TIE \<or> \<not> current_match_index s < length (matchups s)")
  case True
  from inv have "mode s = Elimination" by (simp add: bracket_inv_def)
  with True av have "s' = s"
    by (auto simp: apply_vote_def vote_elimination_def split: if_splits)
  with inv show ?thesis by simp
next
  case False
  then have c: "current_match_index s < length (matchups s)" and o: "outcome \<noteq> TIE" by auto
  let ?c = "current_match_index s"
  from vote_step[OF inv c o] av obtain w l where
    wl: "w \<noteq> l" "status_of s w = Some Active" "status_of s l = Some Active"
      "w \<notin> set (items_of (drop (Suc ?c) (matchups s)))"
      "l \<notin> set (items_of (drop (Suc ?c) (matchups s)))"
    and f: "map fst (players s') = map fst (players s)" "matchups s' = matchups s"
      "round_no s' = round_no s" "mode s' = mode s"
      "current_match_index s' = ?c + 1"
    and pl: "\<forall>p. map_of (players s') p =
         (if p = l
          then map_option (\<lambda>d. d\<lparr>status := Eliminated, eliminated_in_round := Some (round_no s)\<rparr>)
                 (map_of (players s) p)
          else if p = w then map_option (\<lambda>d. d\<lparr>status := Winner\<rparr>) (map_of (players s) p)
          else map_of (players s) p)"
    by auto
  note st = vote_step_status[OF pl wl(2,3)]
  from inv have i: "mode s = Elimination" "distinct (map fst (players s))"
    "distinct (items_of (matchups s))"
    "\<forall>p \<in> set (items_of (drop ?c (matchups s))). status_of s p = Some Active"
    and r: "\<forall>p d r. map_of (players s) p = Some d \<and> eliminated_in_round d = Some r \<longrightarrow>
          status d = Eliminated \<and> r \<le> round_no s \<or>
          winners_of s = [p] \<and> length (matchups s) \<le> current_match_index s \<and>
          r = round_no s + 1"
    by (simp_all add: bracket_inv_def)
  have d': "distinct (map fst (players s'))" using i(2) f(1) by simp
  have act: "\<forall>p \<in> set (items_of (drop (current_match_index s') (matchups s'))).
          status_of s' p = Some Active"
  proof
    fix p assume p: "p \<in> set (items_of (drop (current_match_index s') (matchups s')))"
    then have p': "p \<in> set (items_of (drop (Suc ?c) (matchups s)))" using f by simp
    with wl have "p \<noteq> w" "p \<noteq> l" by auto
    moreover from p' have "p \<in> set (items_of (drop ?c (matchups s)))"
      using items_of_drop[OF c] by simp
    ultimately show "status_of s' p = Some Active" using st i(4) by simp
  qed
  have "status_of s' w = Some Winner" using st wl(1) by simp
  then have win: "winners_of s' \<noteq> []" using winners_of_set[OF d'] by auto
  have rounds: "status d = Eliminated \<and> r \<le> round_no s' \<or>
          winners_of s' = [p] \<and> length (matchups s') \<le> current_match_index s' \<and>
          r = round_no s' + 1"
    if h: "map_of (players s') p = Some d" "eliminated_in_round d = Some r" for p d r
  proof -
    consider (l) "p = l" | (w) "p = w" "p \<noteq> l" | (other) "p \<noteq> w" "p \<noteq> l" by blast
    then show ?thesis
    proof cases
      case l
      with h pl f show ?thesis by auto
    next
      case w
      with h pl obtain d0 where d0: "map_of (players s) p = Some d0" "d = d0\<lparr>status := Winner\<rparr>"
        by auto
      with h have "eliminated_in_round d0 = Some r" by simp
      with r d0 c have "status d0 = Eliminated" by force
      with d0 w wl(2) show ?thesis by (simp add: status_of_def)
    next
      case other
      with h pl have "map_of (players s) p = Some d" by simp
      with r h(2) c have "status d = Eliminated \<and> r \<le> round_no s" by force
      with f show ?thesis by simp
    qed
  qed
  from inv have rn: "1 \<le> round_no s" by (simp add: bracket_inv_def)
  show ?thesis
    unfolding bracket_inv_def
    using i(1,3) f d' act win rounds rn by auto
qed


lemma display_pending:
  "mode s = Elimination \<Longrightarrow> current_match_index s < length (matchups s) \<Longrightarrow>
   display_match sh (Some s) = Inr (Some s, show_bracket_match s hidden_view)"
  by (simp add: display_match_def display_elimination_def)

lemma display_champion:
  "mode s = Elimination \<Longrightarrow> length (matchups s) \<le> current_match_index s \<Longrightarrow>
   winners_of s = [w] \<Longrightarrow>
   display_match sh (Some s) =
     Inr (Some (crown w s),
          (set_updates ChampionDecided False False False hidden_view)
            \<lparr>ranking_table := Shown (BracketTable (ranking_data (crown w s))),
             champion := Shown w\<rparr>)"
  by (simp add: display_match_def display_elimination_def Let_def)

lemma display_advance:
  "mode s = Elimination \<Longrightarrow> length (matchups s) \<le> current_match_index s \<Longrightarrow>
   length (winners_of s) \<noteq> 1 \<Longrightarrow>
   display_match sh (Some s) =
     Inr (Some (advance_round sh s), show_bracket_match (advance_round sh s) hidden_view)"
  by (simp add: display_match_def display_elimination_def Let_def)

lemma singleton_list: "distinct xs \<Longrightarrow> set xs = {x} \<Longrightarrow> xs = [x]"
  by (cases xs) (auto simp: insert_eq_iff dest!: subset_singletonD)

lemma advance_round_status:
  assumes "distinct (map fst (players s))" and "is_shuffle sh"
  shows "status_of (advance_round sh s) p =
     (if p \<in> set (winners_of s)
      then (if odd (length (winners_of s)) \<and> p = last (sh (winners_of s))
            then Some Winner else Some Active)
      else status_of s p)"
proof (cases "p \<in> set (winners_of s)")
  case True
  then have "status_of s p = Some Winner" using winners_of_set[OF assms(1)] by simp
  then obtain d where "map_of (players s) p = Some d" by (auto simp: status_of_def)
  with True show ?thesis
    unfolding status_of_def advance_round_players
    by (simp add: shuffle_facts[OF assms(2)])
next
  case False
  then show ?thesis
    unfolding status_of_def advance_round_players
    by (cases "map_of (players s) p") (simp_all add: shuffle_facts[OF assms(2)])
qed

lemma advance_round_winners:
  assumes "distinct (map fst (players s))" and "is_shuffle sh"
  shows "winners_of (advance_round sh s) =
         (if odd (length (winners_of s)) then [last (sh (winners_of s))] else [])"
proof -
  let ?s' = "advance_round sh s"
  let ?ws = "sh (winners_of s)"
  have d': "distinct (map fst (players ?s'))" using assms(1) by (simp add: advance_round_fields)
  have set: "set (winners_of ?s') = {p. status_of ?s' p = Some Winner}"
    by (rule winners_of_set[OF d'])
  have old: "set (winners_of s) = {p. status_of s p = Some Winner}"
    by (rule winners_of_set[OF assms(1)])
  show ?thesis
  proof (cases "odd (length (winners_of s))")
    case True
    then have "?ws \<noteq> []" using shuffle_facts(2)[OF assms(2), of "winners_of s"] by auto
    then have "last ?ws \<in> set (winners_of s)"
      using shuffle_facts(1)[OF assms(2), of "winners_of s"] last_in_set by blast
    with True have "set (winners_of ?s') = {last ?ws}"
      unfolding set using old by (auto simp: advance_round_status[OF assms])
    with winners_of_distinct[OF d'] True show ?thesis by (simp add: singleton_list)
  next
    case False
    then have "set (winners_of ?s') = {}"
      unfolding set using old by (auto simp: advance_round_status[OF assms])
    with False show ?thesis by simp
  qed
qed

lemma inv_advance:
  assumes inv: "bracket_inv s" and sh: "is_shuffle sh"
    and over: "length (matchups s) \<le> current_match_index s"
    and n: "length (winners_of s) \<noteq> 1"
  shows "bracket_inv (advance_round sh s)"
proof -
  let ?s' = "advance_round sh s"
  let ?ws = "sh (winners_of s)"
  from inv have i: "mode s = Elimination" "distinct (map fst (players s))"
    "current_match_index s < length (matchups s) \<or> winners_of s \<noteq> []"
    and r: "\<forall>p d r. map_of (players s) p = Some d \<and> eliminated_in_round d = Some r \<longrightarrow>
          status d = Eliminated \<and> r \<le> round_no s \<or>
          winners_of s = [p] \<and> length (matchups s) \<le> current_match_index s \<and>
          r = round_no s + 1"
    by (simp_all add: bracket_inv_def)
  note sf = shuffle_facts[OF sh, of "winners_of s"]
  have dw: "distinct ?ws" using sf(3) winners_of_distinct[OF i(2)] by simp
  from i(3) over have "length (winners_of s) \<noteq> 0" by auto
  with n have len: "2 \<le> length ?ws" unfolding sf(2) by linarith
  have items: "items_of (matchups ?s') = even_part ?ws"
    by (simp add: advance_round_fields items_of_consecutive_pairs)
  have d3: "distinct (items_of (matchups ?s'))"
    unfolding items using dw by (rule distinct_even_part)
  have act: "\<forall>p \<in> set (items_of (drop (current_match_index ?s') (matchups ?s'))).
       status_of ?s' p = Some Active"
  proof
    fix p assume "p \<in> set (items_of (drop (current_match_index ?s') (matchups ?s')))"
    then have p: "p \<in> set (even_part ?ws)" using items by (simp add: advance_round_fields)
    then have pw: "p \<in> set (winners_of s)" using set_even_part sf(1) by blast
    have "\<not> (odd (length (winners_of s)) \<and> p = last ?ws)"
    proof
      assume a: "odd (length (winners_of s)) \<and> p = last ?ws"
      then have "even_part ?ws = butlast ?ws" using sf(2) by (simp add: even_part_butlast)
      moreover have "?ws \<noteq> []" using len by auto
      ultimately show False using p a last_not_in_butlast[OF dw] by simp
    qed
    with pw show "status_of ?s' p = Some Active"
      by (simp add: advance_round_status[OF i(2) sh])
  qed
  have pend: "current_match_index ?s' < length (matchups ?s')"
    using len by (simp add: advance_round_fields length_consecutive_pairs)
  have rounds: "status d = Eliminated \<and> r \<le> round_no ?s' \<or>
          winners_of ?s' = [p] \<and> length (matchups ?s') \<le> current_match_index ?s' \<and>
          r = round_no ?s' + 1"
    if h: "map_of (players ?s') p = Some d" "eliminated_in_round d = Some r" for p d r
  proof -
    from h(1) obtain d0 where d0: "map_of (players s) p = Some d0"
      and d: "d = (if p \<in> set ?ws
                   then d0\<lparr>status := (if odd (length ?ws) \<and> p = last ?ws then Winner else Active)\<rparr>
                   else d0)"
      unfolding advance_round_players by auto
    from d h(2) have "eliminated_in_round d0 = Some r" by (simp split: if_splits)
    with r d0 n have e: "status d0 = Eliminated" "r \<le> round_no s" by force+
    with d0 have "status_of s p = Some Eliminated" by (simp add: status_of_def)
    then have "p \<notin> set (winners_of s)" using winners_of_set[OF i(2)] by simp
    with d sf(1) have "d = d0" by simp
    with e show ?thesis by (simp add: advance_round_fields)
  qed
  from inv have rn: "1 \<le> round_no s" by (simp add: bracket_inv_def)
  show ?thesis
    unfolding bracket_inv_def
    using i(1,2) d3 act pend rounds rn by (auto simp: advance_round_fields)
qed

lemma inv_crown:
  assumes inv: "bracket_inv s" and over: "length (matchups s) \<le> current_match_index s"
    and w: "winners_of s = [w]"
  shows "bracket_inv (crown w s)"
proof -
  let ?s' = "crown w s"
  from inv have i: "mode s = Elimination" "distinct (map fst (players s))"
    "distinct (items_of (matchups s))"
    "\<forall>p \<in> set (items_of (drop (current_match_index s) (matchups s))). status_of s p = Some Active"
    and r: "\<forall>p d r. map_of (players s) p = Some d \<and> eliminated_in_round d = Some r \<longrightarrow>
          status d = Eliminated \<and> r \<le> round_no s \<or>
          winners_of s = [p] \<and> length (matchups s) \<le> current_match_index s \<and>
          r = round_no s + 1"
    by (simp_all add: bracket_inv_def)
  have d': "distinct (map fst (players ?s'))" using i(2) by (simp add: crown_fields)
  have "set (winners_of ?s') = set (winners_of s)"
    using winners_of_set[OF d'] winners_of_set[OF i(2)] by (simp add: crown_fields)
  with w have w': "winners_of ?s' = [w]"
    using winners_of_distinct[OF d'] by (simp add: singleton_list)
  have rounds: "status d = Eliminated \<and> r \<le> round_no ?s' \<or>
          winners_of ?s' = [p] \<and> length (matchups ?s') \<le> current_match_index ?s' \<and>
          r = round_no ?s' + 1"
    if h: "map_of (players ?s') p = Some d" "eliminated_in_round d = Some r" for p d r
  proof (cases "p = w")
    case True
    with h have "r = round_no s + 1" by (auto simp: crown_fields)
    with True w' over show ?thesis by (simp add: crown_fields)
  next
    case False
    with h have "map_of (players s) p = Some d" by (simp add: crown_fields)
    with r h(2) False w have "status d = Eliminated \<and> r \<le> round_no s" by force
    then show ?thesis by (simp add: crown_fields)
  qed
  from inv have rn: "1 \<le> round_no s" by (simp add: bracket_inv_def)
  show ?thesis
    unfolding bracket_inv_def
    using i d' w' rounds rn by (auto simp: crown_fields)
qed

lemma inv_display:
  assumes inv: "bracket_inv s" and sh: "is_shuffle sh"
    and dm: "display_match sh (Some s) = Inr (Some s', v)"
  shows "bracket_inv s'"
proof -
  from inv have m: "mode s = Elimination" by (simp add: bracket_inv_def)
  have one: "\<exists>w. winners_of s = [w]" if "length (winners_of s) = 1"
    using that by (cases "winners_of s") simp_all
  consider (pending) "current_match_index s < length (matchups s)"
    | (champion) w where "length (matchups s) \<le> current_match_index s" "winners_of s = [w]"
    | (advance) "length (matchups s) \<le> current_match_index s" "length (winners_of s) \<noteq> 1"
    using one by (cases "current_match_index s < length (matchups s)") auto
  then show ?thesis
  proof cases
    case pending
    with dm m inv show ?thesis by (simp add: display_pending)
  next
    case champion
    with dm m inv_crown[OF inv champion] show ?thesis by (simp add: display_champion)
  next
    case advance
    with dm m inv_advance[OF inv sh advance] show ?thesis by (simp add: display_advance)
  qed
qed


lemma start_elimination_fields:
  "matchups (start_elimination sh files s) = consecutive_pairs (sh files)"
  "current_match_index (start_elimination sh files s) = 0"
  "round_no (start_elimination sh files s) = 1"
  "mode (start_elimination sh files s) = mode s"
  "original_filenames (start_elimination sh files s) = original_filenames s"
  by (simp_all add: start_elimination_def Let_def)

lemma map_of_const:
  "map_of (map (\<lambda>f. (f, c)) xs) p = (if p \<in> set xs then Some c else None)"
  by (induction xs) auto

lemma start_elimination_players:
  assumes "distinct (sh files)"
  shows "map fst (players (start_elimination sh files s)) = sh files"
    and "map_of (players (start_elimination sh files s)) p =
     (if p \<in> set (sh files)
      then Some (blank_player\<lparr>status :=
                   (if odd (length (sh files)) \<and> p = last (sh files) then Winner else Active)\<rparr>)
      else None)"
proof -
  let ?fs = "sh files"
  let ?ps = "map (\<lambda>f. (f, blank_player\<lparr>status := Active\<rparr>)) ?fs"
  have dc: "dict_comprehension id (\<lambda>f. blank_player\<lparr>status := Active\<rparr>) ?fs = ?ps"
    using assms by (rule dict_comprehension_distinct)
  have mo: "map_of ?ps q = (if q \<in> set ?fs then Some (blank_player\<lparr>status := Active\<rparr>) else None)"
    for q by (rule map_of_const)
  have pl: "players (start_elimination sh files s) =
      (if length ?fs mod 2 \<noteq> 0 then dict_update (last ?fs) (\<lambda>d. d\<lparr>status := Winner\<rparr>) ?ps else ?ps)"
    by (simp add: start_elimination_def Let_def dc)
  show "map fst (players (start_elimination sh files s)) = sh files"
    unfolding pl by (simp add: dict_update_keys comp_def)
  show "map_of (players (start_elimination sh files s)) p =
     (if p \<in> set ?fs
      then Some (blank_player\<lparr>status := (if odd (length ?fs) \<and> p = last ?fs then Winner else Active)\<rparr>)
      else None)"
  proof (cases "odd (length ?fs)")
    case True
    then have "length ?fs mod 2 \<noteq> 0" by presburger
    with True show ?thesis unfolding pl by (simp add: map_of_dict_update mo)
  next
    case False
    then have "length ?fs mod 2 = 0" by presburger
    with False show ?thesis unfolding pl by (simp add: mo)
  qed
qed

lemma start_tournament_elimination:
  assumes "2 \<le> length (filter (is_media_file lower) files_list)"
  shows "start_tournament lower sh files_list Elimination rounds =
     display_match sh (Some (start_elimination sh (filter (is_media_file lower) files_list)
        (initial_state Elimination (filter (is_media_file lower) files_list))))"
proof -
  from assms have "files_list \<noteq> []" by auto
  with assms show ?thesis by (simp add: start_tournament_def Let_def)
qed

lemma start_tournament_Some:
  assumes "start_tournament lower sh files_list Elimination rounds = Inr (Some s, v)"
  shows "2 \<le> length (filter (is_media_file lower) files_list)"
  using assms by (auto simp: start_tournament_def Let_def split: if_splits)

lemma start_tournament_state:
  assumes sh: "is_shuffle sh" and two: "2 \<le> length (filter (is_media_file lower) files_list)"
  shows "start_tournament lower sh files_list Elimination rounds =
     Inr (Some (start_elimination sh (filter (is_media_file lower) files_list)
                 (initial_state Elimination (filter (is_media_file lower) files_list))),
          show_bracket_match (start_elimination sh (filter (is_media_file lower) files_list)
                 (initial_state Elimination (filter (is_media_file lower) files_list))) hidden_view)"
proof -
  let ?files = "filter (is_media_file lower) files_list"
  let ?s = "start_elimination sh ?files (initial_state Elimination ?files)"
  have "length (sh ?files) = length ?files" using shuffle_facts(2)[OF sh] by simp
  with two have "current_match_index ?s < length (matchups ?s)"
    by (simp add: start_elimination_fields length_consecutive_pairs)
  moreover have "mode ?s = Elimination" by (simp add: start_elimination_fields initial_state_def)
  ultimately show ?thesis
    unfolding start_tournament_elimination[OF two] by (rule display_pending[rotated])
qed

lemma inv_start_state:
  assumes sh: "is_shuffle sh" and d: "distinct files" and two: "2 \<le> length files"
  shows "bracket_inv (start_elimination sh files (initial_state Elimination files))"
proof -
  let ?s = "start_elimination sh files (initial_state Elimination files)"
  let ?fs = "sh files"
  note sf = shuffle_facts[OF sh, of files]
  have dfs: "distinct ?fs" using sf(3) d by simp
  note pl = start_elimination_players[of sh files "initial_state Elimination files", OF dfs]
  have st: "status_of ?s p =
     (if p \<in> set ?fs then Some (if odd (length ?fs) \<and> p = last ?fs then Winner else Active) else None)"
    for p unfolding status_of_def pl(2) by simp
  have items: "items_of (matchups ?s) = even_part ?fs"
    by (simp add: start_elimination_fields items_of_consecutive_pairs)
  have act: "\<forall>p \<in> set (items_of (drop (current_match_index ?s) (matchups ?s))).
       status_of ?s p = Some Active"
  proof
    fix p assume "p \<in> set (items_of (drop (current_match_index ?s) (matchups ?s)))"
    then have p: "p \<in> set (even_part ?fs)" using items by (simp add: start_elimination_fields)
    then have pf: "p \<in> set ?fs" using set_even_part by blast
    have "\<not> (odd (length ?fs) \<and> p = last ?fs)"
    proof
      assume a: "odd (length ?fs) \<and> p = last ?fs"
      then have "even_part ?fs = butlast ?fs" by (simp add: even_part_butlast)
      moreover have "?fs \<noteq> []" using two sf(2) by auto
      ultimately show False using p a last_not_in_butlast[OF dfs] by simp
    qed
    with pf show "status_of ?s p = Some Active" by (simp add: st)
  qed
  have pend: "current_match_index ?s < length (matchups ?s)"
    using two sf(2) by (simp add: start_elimination_fields length_consecutive_pairs)
  have none: "eliminated_in_round d = None" if "map_of (players ?s) p = Some d" for p d
    using that unfolding pl(2) by (auto simp: blank_player_def split: if_splits)
  show ?thesis
    unfolding bracket_inv_def
    using pl(1) dfs items distinct_even_part[OF dfs] act pend none
    by (auto simp: start_elimination_fields initial_state_def)
qed

lemma inv_start:
  assumes "is_shuffle sh" and "distinct (filter (is_media_file lower) files_list)"
    and "start_tournament lower sh files_list Elimination rounds = Inr (Some s, v)"
  shows "bracket_inv s"
proof -
  from assms(3) have two: "2 \<le> length (filter (is_media_file lower) files_list)"
    by (rule start_tournament_Some)
  from assms(3) have "s = start_elimination sh (filter (is_media_file lower) files_list)
                 (initial_state Elimination (filter (is_media_file lower) files_list))"
    unfolding start_tournament_state[OF assms(1) two] by simp
  then show ?thesis using inv_start_state[OF assms(1,2) two] by simp
qed

lemma reachable_inv: "bracket_reachable s \<Longrightarrow> bracket_inv s"
proof (induction rule: bracket_reachable.induct)
  case (started sh lower files_list rounds s v)
  then show ?case by (rule inv_start)
next
  case (voted s outcome s')
  then show ?case using inv_vote by blast
next
  case (displayed s sh s' v)
  then show ?case using inv_display by blast
qed


lemma vote_winner_count:
  assumes inv: "bracket_inv s" and c: "current_match_index s < length (matchups s)"
    and o: "outcome \<noteq> TIE" and av: "apply_vote outcome s = Inr s'"
  shows "length (winners_of s') = length (winners_of s) + 1"
proof -
  from vote_step[OF inv c o] av obtain w l where
    wl: "w \<noteq> l" "status_of s w = Some Active" "status_of s l = Some Active"
    and f: "map fst (players s') = map fst (players s)"
    and pl: "\<forall>p. map_of (players s') p =
         (if p = l
          then map_option (\<lambda>d. d\<lparr>status := Eliminated, eliminated_in_round := Some (round_no s)\<rparr>)
                 (map_of (players s) p)
          else if p = w then map_option (\<lambda>d. d\<lparr>status := Winner\<rparr>) (map_of (players s) p)
          else map_of (players s) p)"
    by auto
  note st = vote_step_status[OF pl wl(2,3)]
  from inv have d: "distinct (map fst (players s))" by (simp add: bracket_inv_def)
  then have d': "distinct (map fst (players s'))" using f by simp
  have "{p. status_of s' p = Some Winner} = insert w {p. status_of s p = Some Winner}"
    using st wl by auto
  moreover have "w \<notin> {p. status_of s p = Some Winner}" using wl(2) by simp
  moreover have "finite {p. status_of s p = Some Winner}"
    using winners_of_set[OF d] by (metis List.finite_set)
  ultimately have "card {p. status_of s' p = Some Winner} = card {p. status_of s p = Some Winner} + 1"
    by simp
  then show ?thesis using length_winners_of[OF d] length_winners_of[OF d'] by simp
qed

lemma apply_votes_run:
  assumes "bracket_inv s" and "TIE \<notin> set os"
    and "current_match_index s + length os \<le> length (matchups s)"
  shows "\<exists>s'. apply_votes os s = Inr s' \<and> bracket_inv s' \<and> matchups s' = matchups s \<and>
           round_no s' = round_no s \<and>
           current_match_index s' = current_match_index s + length os \<and>
           length (winners_of s') = length (winners_of s) + length os"
  using assms
proof (induction os arbitrary: s)
  case Nil
  then show ?case by simp
next
  case (Cons outcome os)
  from Cons.prems have c: "current_match_index s < length (matchups s)" and o: "outcome \<noteq> TIE"
    by auto
  from vote_step[OF Cons.prems(1) c o] obtain s1 where
    s1: "apply_vote outcome s = Inr s1" "matchups s1 = matchups s" "round_no s1 = round_no s"
      "current_match_index s1 = current_match_index s + 1"
    by blast
  have inv1: "bracket_inv s1" using inv_vote[OF Cons.prems(1) s1(1)] .
  have w1: "length (winners_of s1) = length (winners_of s) + 1"
    using vote_winner_count[OF Cons.prems(1) c o s1(1)] .
  from Cons.prems s1 have "TIE \<notin> set os" "current_match_index s1 + length os \<le> length (matchups s1)"
    by auto
  from Cons.IH[OF inv1 this] obtain s' where
    "apply_votes os s1 = Inr s'" "bracket_inv s'" "matchups s' = matchups s1"
    "round_no s' = round_no s1" "current_match_index s' = current_match_index s1 + length os"
    "length (winners_of s') = length (winners_of s1) + length os"
    by blast
  with s1 w1 show ?case by simp
qed


section \<open>Byes, ranking and progress of the bracket\<close>

lemma bye_roundI:
  assumes d: "distinct entering" and odd: "odd (length entering)"
    and m: "matchups s = consecutive_pairs entering" and c: "current_match_index s = 0"
    and w: "winners_of s = [last entering]"
    and a: "\<And>p. p \<in> set entering \<Longrightarrow> p \<noteq> last entering \<Longrightarrow> status_of s p = Some Active"
  shows "bye_round entering s"
proof -
  from odd have ne: "entering \<noteq> []" by auto
  have items: "items_of (matchups s) = butlast entering"
    by (simp add: m items_of_consecutive_pairs even_part_butlast[OF odd])
  have notin: "last entering \<notin> set (butlast entering)" by (rule last_not_in_butlast[OF d ne])
  have act: "\<forall>p \<in> set (butlast entering). status_of s p = Some Active"
    using a notin by (metis in_set_butlastD)
  show ?thesis
    unfolding bye_round_def
    using w items notin act c by (simp add: m length_consecutive_pairs nth_consecutive_pairs)
qed

text \<open>
  Claim C9. When the items that enter a round are odd in number, the last one in shuffled
  order is the round's only winner and is in none of its matches, and the others are
  active and paired two by two in that order. This holds for the first round, drawn by
  \<open>start_tournament\<close> from the (distinct) media file names, and for every later round,
  drawn by \<open>display_match\<close> from the winners of the round before. One winner alone
  starts no round: it is the champion.
\<close>

theorem bye_on_odd_count:
  assumes sh: "is_shuffle sh"
  shows "(distinct (filter (is_media_file lower) files_list) \<and>
          odd (length (filter (is_media_file lower) files_list)) \<and>
          2 \<le> length (filter (is_media_file lower) files_list) \<longrightarrow>
          (\<exists>s v. start_tournament lower sh files_list Elimination rounds = Inr (Some s, v) \<and>
                 bye_round (sh (filter (is_media_file lower) files_list)) s)) \<and>
         (mode s = Elimination \<and> distinct (map fst (players s)) \<and>
          length (matchups s) \<le> current_match_index s \<and>
          odd (length (winners_of s)) \<and> length (winners_of s) \<noteq> 1 \<longrightarrow>
          (\<exists>s' v. display_match sh (Some s) = Inr (Some s', v) \<and>
                  bye_round (sh (winners_of s)) s'))"
proof (intro conjI impI)
  let ?files = "filter (is_media_file lower) files_list"
  let ?fs = "sh ?files"
  let ?s = "start_elimination sh ?files (initial_state Elimination ?files)"
  assume h: "distinct ?files \<and> odd (length ?files) \<and> 2 \<le> length ?files"
  note sf = shuffle_facts[OF sh, of ?files]
  have dfs: "distinct ?fs" using sf(3) h by simp
  have odd: "odd (length ?fs)" using sf(2) h by simp
  note pl = start_elimination_players[of sh ?files "initial_state Elimination ?files", OF dfs]
  have st: "status_of ?s p =
     (if p \<in> set ?fs then Some (if odd (length ?fs) \<and> p = last ?fs then Winner else Active) else None)"
    for p unfolding status_of_def pl(2) by simp
  have d': "distinct (map fst (players ?s))" using pl(1) dfs by simp
  have "?fs \<noteq> []" using odd by auto
  then have "set (winners_of ?s) = {last ?fs}"
    using winners_of_set[OF d'] odd by (auto simp: st)
  then have w: "winners_of ?s = [last ?fs]"
    using winners_of_distinct[OF d'] by (simp add: singleton_list)
  have "bye_round ?fs ?s"
    by (rule bye_roundI[OF dfs odd _ _ w]) (simp_all add: start_elimination_fields st)
  moreover from h have "start_tournament lower sh files_list Elimination rounds =
      Inr (Some ?s, show_bracket_match ?s hidden_view)"
    using start_tournament_state[OF sh] by blast
  ultimately show "\<exists>s v. start_tournament lower sh files_list Elimination rounds = Inr (Some s, v) \<and>
                 bye_round ?fs s" by blast
next
  let ?ws = "sh (winners_of s)"
  let ?s' = "advance_round sh s"
  assume h: "mode s = Elimination \<and> distinct (map fst (players s)) \<and>
          length (matchups s) \<le> current_match_index s \<and>
          odd (length (winners_of s)) \<and> length (winners_of s) \<noteq> 1"
  then have d: "distinct (map fst (players s))" by simp
  note sf = shuffle_facts[OF sh, of "winners_of s"]
  have dws: "distinct ?ws" using sf(3) winners_of_distinct[OF d] by simp
  have odd: "odd (length ?ws)" using sf(2) h by simp
  have w: "winners_of ?s' = [last ?ws]" using advance_round_winners[OF d sh] h by simp
  have "bye_round ?ws ?s'"
    by (rule bye_roundI[OF dws odd _ _ w])
       (simp_all add: advance_round_fields advance_round_status[OF d sh] sf(1))
  moreover from h have "display_match sh (Some s) =
      Inr (Some ?s', show_bracket_match ?s' hidden_view)"
    using display_advance by blast
  ultimately show "\<exists>s' v. display_match sh (Some s) = Inr (Some s', v) \<and> bye_round ?ws s'"
    by blast
qed

lemma three_files: "filter (is_media_file (\<lambda>x. x)) [''a.png'', ''b.png'', ''c.png''] =
    [''a.png'', ''b.png'', ''c.png'']"
  by (simp add: is_media_file_def SUPPORTED_EXTENSIONS_def endswith_def)

lemma three_winners: "winners_of three_winners_example = [''a'', ''c'', ''e'']"
  by (simp add: winners_of_def three_winners_example_def bracket_player_def blank_player_def)

theorem bye_on_odd_count_witness:
  "is_shuffle rev \<and>
   distinct (filter (is_media_file (\<lambda>x. x)) [''a.png'', ''b.png'', ''c.png'']) \<and>
   odd (length (filter (is_media_file (\<lambda>x. x)) [''a.png'', ''b.png'', ''c.png''])) \<and>
   (\<exists>s v. start_tournament (\<lambda>x. x) rev [''a.png'', ''b.png'', ''c.png''] Elimination 0 = Inr (Some s, v) \<and>
      bye_round [''c.png'', ''b.png'', ''a.png''] s \<and>
      winners_of s = [''a.png''] \<and> matchups s = [(''c.png'', ''b.png'')]) \<and>
   mode three_winners_example = Elimination \<and>
   distinct (map fst (players three_winners_example)) \<and>
   length (matchups three_winners_example) \<le> current_match_index three_winners_example \<and>
   winners_of three_winners_example = [''a'', ''c'', ''e''] \<and>
   (\<exists>s' v. display_match rev (Some three_winners_example) = Inr (Some s', v) \<and>
      bye_round [''e'', ''c'', ''a''] s' \<and> winners_of s' = [''a''] \<and> matchups s' = [(''e'', ''c'')])"
proof -
  have sh: "is_shuffle rev" by (simp add: is_shuffle_def)
  have h1: "distinct (filter (is_media_file (\<lambda>x. x)) [''a.png'', ''b.png'', ''c.png'']) \<and>
          odd (length (filter (is_media_file (\<lambda>x. x)) [''a.png'', ''b.png'', ''c.png''])) \<and>
          2 \<le> length (filter (is_media_file (\<lambda>x. x)) [''a.png'', ''b.png'', ''c.png''])"
    unfolding three_files by simp
  have h2: "mode three_winners_example = Elimination \<and>
          distinct (map fst (players three_winners_example)) \<and>
          length (matchups three_winners_example) \<le> current_match_index three_winners_example \<and>
          odd (length (winners_of three_winners_example)) \<and>
          length (winners_of three_winners_example) \<noteq> 1"
    unfolding three_winners by (simp add: three_winners_example_def)
  from bye_on_odd_count[OF sh, of "\<lambda>x. x" "[''a.png'', ''b.png'', ''c.png'']" 0 three_winners_example] h1 h2
  have a: "\<exists>s v. start_tournament (\<lambda>x. x) rev [''a.png'', ''b.png'', ''c.png''] Elimination 0 = Inr (Some s, v) \<and>
      bye_round [''c.png'', ''b.png'', ''a.png''] s"
    and b: "\<exists>s' v. display_match rev (Some three_winners_example) = Inr (Some s', v) \<and>
      bye_round [''e'', ''c'', ''a''] s'"
    unfolding three_files three_winners by simp_all
  have c: "winners_of s = [''a.png''] \<and> matchups s = [(''c.png'', ''b.png'')]"
    if "bye_round [''c.png'', ''b.png'', ''a.png''] s" for s
    using that by (cases "matchups s") (auto simp: bye_round_def items_of_def)
  have d: "winners_of s = [''a''] \<and> matchups s = [(''e'', ''c'')]"
    if "bye_round [''e'', ''c'', ''a''] s" for s
    using that by (cases "matchups s") (auto simp: bye_round_def items_of_def)
  from a b c d sh h1 h2 three_winners show ?thesis by (metis (no_types))
qed



lemma identity_shuffle: "is_shuffle (\<lambda>xs. xs)"
  by (simp add: is_shuffle_def)


lemma four_files:
  "filter (is_media_file (\<lambda>x. x)) [''a.png'', ''b.png'', ''c.png'', ''d.png''] =
     [''a.png'', ''b.png'', ''c.png'', ''d.png'']"
  by (simp add: is_media_file_def SUPPORTED_EXTENSIONS_def endswith_def)


lemma start_four_files:
  "start_elimination (\<lambda>xs. xs) [''a.png'', ''b.png'', ''c.png'', ''d.png'']
     (initial_state Elimination [''a.png'', ''b.png'', ''c.png'', ''d.png'']) = bracket_example"
  by (simp add: initial_state_def start_elimination_def dict_comprehension_def dict_set_def
      dict_update_def path_name_def consecutive_pairs_def bracket_example_def bracket_player_def
      blank_player_def Let_def)


lemma bracket_example_reachable: "bracket_reachable bracket_example"
proof -
  have four: "2 \<le> length (filter (is_media_file (\<lambda>x. x)) [''a.png'', ''b.png'', ''c.png'', ''d.png''])"
    unfolding four_files by simp
  have "start_tournament (\<lambda>x. x) (\<lambda>xs. xs) [''a.png'', ''b.png'', ''c.png'', ''d.png''] Elimination 0 =
      Inr (Some bracket_example, show_bracket_match bracket_example hidden_view)"
    unfolding start_tournament_state[OF identity_shuffle four] four_files start_four_files by simp
  then show ?thesis
    by (rule bracket_reachable.started[OF identity_shuffle, rotated]) (simp add: four_files)
qed

lemma mid_example_vote: "apply_vote A bracket_example = Inr mid_example"
  by (simp add: apply_vote_def vote_elimination_def dict_update_def bracket_example_def
      mid_example_def bracket_player_def blank_player_def Let_def)

lemma round_end_example_vote: "apply_vote A mid_example = Inr round_end_example"
  by (simp add: apply_vote_def vote_elimination_def dict_update_def bracket_example_def
      mid_example_def round_end_example_def bracket_player_def blank_player_def Let_def)

lemma mid_example_reachable: "bracket_reachable mid_example"
  using bracket_example_reachable mid_example_vote by (rule bracket_reachable.voted)

lemma round_end_example_reachable: "bracket_reachable round_end_example"
  using mid_example_reachable round_end_example_vote by (rule bracket_reachable.voted)








lemma vote_status_step:
  assumes inv: "bracket_inv s" and av: "apply_vote outcome s = Inr s'"
  shows "status_of s' p = status_of s p \<or>
         status_of s p = Some Active \<and>
         (status_of s' p = Some Winner \<or> status_of s' p = Some Eliminated)"
proof (cases "outcome = TIE \<or> \<not> current_match_index s < length (matchups s)")
  case True
  from inv have "mode s = Elimination" by (simp add: bracket_inv_def)
  with True av have "s' = s"
    by (auto simp: apply_vote_def vote_elimination_def split: if_splits)
  then show ?thesis by simp
next
  case False
  then have c: "current_match_index s < length (matchups s)" and o: "outcome \<noteq> TIE" by auto
  from vote_step[OF inv c o] av obtain w l where
    wl: "status_of s w = Some Active" "status_of s l = Some Active"
    and pl: "\<forall>p. map_of (players s') p =
         (if p = l
          then map_option (\<lambda>d. d\<lparr>status := Eliminated, eliminated_in_round := Some (round_no s)\<rparr>)
                 (map_of (players s) p)
          else if p = w then map_option (\<lambda>d. d\<lparr>status := Winner\<rparr>) (map_of (players s) p)
          else map_of (players s) p)"
    by auto
  from vote_step_status[OF pl wl, of p] wl show ?thesis by auto
qed

lemma display_status_step:
  assumes inv: "bracket_inv s" and sh: "is_shuffle sh"
    and dm: "display_match sh (Some s) = Inr (Some s', v)"
  shows "status_of s' p = status_of s p \<or>
         status_of s p = Some Winner \<and> status_of s' p = Some Active"
proof -
  from inv have m: "mode s = Elimination" and d: "distinct (map fst (players s))"
    by (simp_all add: bracket_inv_def)
  have one: "\<exists>w. winners_of s = [w]" if "length (winners_of s) = 1"
    using that by (cases "winners_of s") simp_all
  consider (pending) "current_match_index s < length (matchups s)"
    | (champion) w where "length (matchups s) \<le> current_match_index s" "winners_of s = [w]"
    | (advance) "length (matchups s) \<le> current_match_index s" "length (winners_of s) \<noteq> 1"
    using one by (cases "current_match_index s < length (matchups s)") auto
  then show ?thesis
  proof cases
    case pending
    with dm m show ?thesis by (simp add: display_pending)
  next
    case champion
    with dm m have "s' = crown w s" by (simp add: display_champion)
    then show ?thesis by (simp add: crown_fields)
  next
    case advance
    with dm m have s': "s' = advance_round sh s" by (simp add: display_advance)
    show ?thesis
    proof (cases "p \<in> set (winners_of s)")
      case True
      then have "status_of s p = Some Winner" using winners_of_set[OF d] by simp
      then show ?thesis unfolding s' advance_round_status[OF d sh] using True by simp
    next
      case False
      then show ?thesis unfolding s' advance_round_status[OF d sh] by simp
    qed
  qed
qed

lemma next_round:
  assumes inv: "bracket_inv s" and sh: "is_shuffle sh"
    and over: "length (matchups s) \<le> current_match_index s"
    and n: "length (winners_of s) \<noteq> 1"
    and os: "length os = length (matchups (advance_round sh s))" "TIE \<notin> set os"
  shows "\<exists>s2. apply_votes os (advance_round sh s) = Inr s2 \<and>
            round_no s2 = round_no (advance_round sh s) \<and>
            length (matchups s2) \<le> current_match_index s2 \<and>
            length (winners_of s2) = (length (winners_of s) + 1) div 2 \<and>
            length (winners_of s2) < length (winners_of s)"
proof -
  let ?s1 = "advance_round sh s"
  from inv have d: "distinct (map fst (players s))"
    and w: "current_match_index s < length (matchups s) \<or> winners_of s \<noteq> []"
    by (simp_all add: bracket_inv_def)
  from w over have "length (winners_of s) \<noteq> 0" by auto
  with n have two: "2 \<le> length (winners_of s)" by linarith
  have inv1: "bracket_inv ?s1" by (rule inv_advance[OF inv sh over n])
  have len1: "length (matchups ?s1) = length (winners_of s) div 2"
    by (simp add: advance_round_fields length_consecutive_pairs shuffle_facts(2)[OF sh])
  have win1: "length (winners_of ?s1) = length (winners_of s) mod 2"
  proof (cases "odd (length (winners_of s))")
    case True
    then have "length (winners_of s) mod 2 = 1" by presburger
    with True show ?thesis unfolding advance_round_winners[OF d sh] by simp
  next
    case False
    then have "length (winners_of s) mod 2 = 0" by presburger
    with False show ?thesis unfolding advance_round_winners[OF d sh] by simp
  qed
  have "current_match_index ?s1 + length os \<le> length (matchups ?s1)"
    using os(1) by (simp add: advance_round_fields)
  from apply_votes_run[OF inv1 os(2) this] obtain s2 where
    s2: "apply_votes os ?s1 = Inr s2" "matchups s2 = matchups ?s1" "round_no s2 = round_no ?s1"
      "current_match_index s2 = current_match_index ?s1 + length os"
      "length (winners_of s2) = length (winners_of ?s1) + length os"
    by blast
  from s2(5) os(1) len1 win1
  have cnt: "length (winners_of s2) = (length (winners_of s) + 1) div 2" by presburger
  with two have "length (winners_of s2) < length (winners_of s)" by presburger
  with s2 cnt os(1) show ?thesis by (simp add: advance_round_fields)
qed

text \<open>
  Claim C3, as the code has it. In every state of a running bracket: the state change of a
  vote takes an item only from active to winner or from active to eliminated;
  \<open>display_match\<close> changes a status only from winner back to active, which it does for
  the winners when it draws the next round; so an eliminated item stays eliminated. A round
  that is over has a winner. One winner is the champion. With \<open>w\<close> winners, \<open>w\<close> not 1,
  \<open>display_match\<close> draws the next round with \<open>w div 2\<close> matches, and when these have
  been voted that round is over with \<open>(w + 1) div 2\<close> winners, fewer than \<open>w\<close>.
\<close>

theorem bracket_progress:
  assumes reach: "bracket_reachable s" and sh: "is_shuffle sh"
  shows
   "(\<forall>outcome s' p. apply_vote outcome s = Inr s' \<longrightarrow>
        status_of s' p = status_of s p \<or>
        status_of s p = Some Active \<and>
        (status_of s' p = Some Winner \<or> status_of s' p = Some Eliminated)) \<and>
    (\<forall>s' v p. display_match sh (Some s) = Inr (Some s', v) \<longrightarrow>
        status_of s' p = status_of s p \<or>
        status_of s p = Some Winner \<and> status_of s' p = Some Active) \<and>
    (length (matchups s) \<le> current_match_index s \<longrightarrow> 1 \<le> length (winners_of s)) \<and>
    (length (matchups s) \<le> current_match_index s \<and> length (winners_of s) = 1 \<longrightarrow>
        (\<exists>s' v. display_match sh (Some s) = Inr (Some s', v) \<and>
           info_text v = ChampionDecided \<and> champion v = Shown (hd (winners_of s)))) \<and>
    (length (matchups s) \<le> current_match_index s \<and> length (winners_of s) \<noteq> 1 \<longrightarrow>
        (\<exists>s1 v. display_match sh (Some s) = Inr (Some s1, v) \<and>
           round_no s1 = round_no s + 1 \<and> current_match_index s1 = 0 \<and>
           length (matchups s1) = length (winners_of s) div 2 \<and>
           (\<forall>os. length os = length (matchups s1) \<and> TIE \<notin> set os \<longrightarrow>
              (\<exists>s2. apply_votes os s1 = Inr s2 \<and> round_no s2 = round_no s1 \<and>
                 length (matchups s2) \<le> current_match_index s2 \<and>
                 length (winners_of s2) = (length (winners_of s) + 1) div 2 \<and>
                 length (winners_of s2) < length (winners_of s)))))"
proof -
  have inv: "bracket_inv s" by (rule reachable_inv[OF reach])
  then have m: "mode s = Elimination"
    and w: "current_match_index s < length (matchups s) \<or> winners_of s \<noteq> []"
    by (simp_all add: bracket_inv_def)
  have p1: "\<forall>outcome s' p. apply_vote outcome s = Inr s' \<longrightarrow>
        status_of s' p = status_of s p \<or>
        status_of s p = Some Active \<and>
        (status_of s' p = Some Winner \<or> status_of s' p = Some Eliminated)"
    by (intro allI impI) (rule vote_status_step[OF inv])
  have p2: "\<forall>s' v p. display_match sh (Some s) = Inr (Some s', v) \<longrightarrow>
        status_of s' p = status_of s p \<or>
        status_of s p = Some Winner \<and> status_of s' p = Some Active"
    by (intro allI impI) (rule display_status_step[OF inv sh])
  have p3: "length (matchups s) \<le> current_match_index s \<longrightarrow> 1 \<le> length (winners_of s)"
    using w by (cases "winners_of s") auto
  have p4: "length (matchups s) \<le> current_match_index s \<and> length (winners_of s) = 1 \<longrightarrow>
        (\<exists>s' v. display_match sh (Some s) = Inr (Some s', v) \<and>
           info_text v = ChampionDecided \<and> champion v = Shown (hd (winners_of s)))"
  proof (intro impI, elim conjE)
    assume over: "length (matchups s) \<le> current_match_index s" and "length (winners_of s) = 1"
    then obtain x where x: "winners_of s = [x]" by (cases "winners_of s") simp_all
    show "\<exists>s' v. display_match sh (Some s) = Inr (Some s', v) \<and>
           info_text v = ChampionDecided \<and> champion v = Shown (hd (winners_of s))"
      unfolding display_champion[OF m over x] x by (simp add: set_updates_def)
  qed
  have p5: "length (matchups s) \<le> current_match_index s \<and> length (winners_of s) \<noteq> 1 \<longrightarrow>
        (\<exists>s1 v. display_match sh (Some s) = Inr (Some s1, v) \<and>
           round_no s1 = round_no s + 1 \<and> current_match_index s1 = 0 \<and>
           length (matchups s1) = length (winners_of s) div 2 \<and>
           (\<forall>os. length os = length (matchups s1) \<and> TIE \<notin> set os \<longrightarrow>
              (\<exists>s2. apply_votes os s1 = Inr s2 \<and> round_no s2 = round_no s1 \<and>
                 length (matchups s2) \<le> current_match_index s2 \<and>
                 length (winners_of s2) = (length (winners_of s) + 1) div 2 \<and>
                 length (winners_of s2) < length (winners_of s))))"
  proof (intro impI, elim conjE)
    assume over: "length (matchups s) \<le> current_match_index s" and n: "length (winners_of s) \<noteq> 1"
    let ?s1 = "advance_round sh s"
    have a: "display_match sh (Some s) = Inr (Some ?s1, show_bracket_match ?s1 hidden_view)"
      by (rule display_advance[OF m over n])
    have b: "round_no ?s1 = round_no s + 1" "current_match_index ?s1 = 0"
      by (simp_all add: advance_round_fields)
    have c: "length (matchups ?s1) = length (winners_of s) div 2"
      by (simp add: advance_round_fields length_consecutive_pairs shuffle_facts(2)[OF sh])
    have e: "\<forall>os. length os = length (matchups ?s1) \<and> TIE \<notin> set os \<longrightarrow>
              (\<exists>s2. apply_votes os ?s1 = Inr s2 \<and> round_no s2 = round_no ?s1 \<and>
                 length (matchups s2) \<le> current_match_index s2 \<and>
                 length (winners_of s2) = (length (winners_of s) + 1) div 2 \<and>
                 length (winners_of s2) < length (winners_of s))"
      by (intro allI impI, elim conjE) (rule next_round[OF inv sh over n])
    show "\<exists>s1 v. display_match sh (Some s) = Inr (Some s1, v) \<and>
           round_no s1 = round_no s + 1 \<and> current_match_index s1 = 0 \<and>
           length (matchups s1) = length (winners_of s) div 2 \<and>
           (\<forall>os. length os = length (matchups s1) \<and> TIE \<notin> set os \<longrightarrow>
              (\<exists>s2. apply_votes os s1 = Inr s2 \<and> round_no s2 = round_no s1 \<and>
                 length (matchups s2) \<le> current_match_index s2 \<and>
                 length (winners_of s2) = (length (winners_of s) + 1) div 2 \<and>
                 length (winners_of s2) < length (winners_of s)))"
      by (intro exI conjI) (rule a b c e)+
  qed
  show ?thesis by (intro conjI p1 p2 p3 p4 p5)
qed


lemma round_end_winners: "winners_of round_end_example = [''a.png'', ''c.png'']"
  by (simp add: winners_of_def round_end_example_def bracket_example_def bracket_player_def
      blank_player_def)

lemma round_end_fields:
  "mode round_end_example = Elimination"
  "length (matchups round_end_example) \<le> current_match_index round_end_example"
  "distinct (map fst (players round_end_example))"
  "round_no round_end_example = 1"
  by (simp_all add: round_end_example_def bracket_example_def)

theorem bracket_progress_witness:
  "bracket_reachable round_end_example \<and> is_shuffle rev \<and>
   length (matchups round_end_example) \<le> current_match_index round_end_example \<and>
   length (winners_of round_end_example) = 2 \<and>
   (\<exists>s1 v. display_match rev (Some round_end_example) = Inr (Some s1, v) \<and>
      round_no s1 = 2 \<and> length (matchups s1) = 1 \<and>
      (\<exists>s2. apply_votes [B] s1 = Inr s2 \<and> length (winners_of s2) = 1)) \<and>
   apply_vote A mid_example = Inr round_end_example \<and>
   status_of mid_example ''c.png'' = Some Active \<and>
   status_of round_end_example ''c.png'' = Some Winner \<and>
   status_of mid_example ''d.png'' = Some Active \<and>
   status_of round_end_example ''d.png'' = Some Eliminated"
proof -
  have sh: "is_shuffle rev" by (simp add: is_shuffle_def)
  have n: "length (winners_of round_end_example) = 2" unfolding round_end_winners by simp
  have st: "status_of mid_example ''c.png'' = Some Active"
    "status_of round_end_example ''c.png'' = Some Winner"
    "status_of mid_example ''d.png'' = Some Active"
    "status_of round_end_example ''d.png'' = Some Eliminated"
    by (simp_all add: status_of_def mid_example_def round_end_example_def bracket_example_def
        bracket_player_def blank_player_def)
  have hyp: "length (matchups round_end_example) \<le> current_match_index round_end_example \<and>
      length (winners_of round_end_example) \<noteq> 1"
    using round_end_fields(2) n by simp
  note p5 = bracket_progress[OF round_end_example_reachable sh,
      THEN conjunct2, THEN conjunct2, THEN conjunct2, THEN conjunct2, THEN mp, OF hyp]
  then obtain s1 v where s1: "display_match rev (Some round_end_example) = Inr (Some s1, v)"
    "round_no s1 = round_no round_end_example + 1"
    "length (matchups s1) = length (winners_of round_end_example) div 2"
    "\<forall>os. length os = length (matchups s1) \<and> TIE \<notin> set os \<longrightarrow>
       (\<exists>s2. apply_votes os s1 = Inr s2 \<and> round_no s2 = round_no s1 \<and>
          length (matchups s2) \<le> current_match_index s2 \<and>
          length (winners_of s2) = (length (winners_of round_end_example) + 1) div 2 \<and>
          length (winners_of s2) < length (winners_of round_end_example))"
    by (elim exE conjE)
  from s1(3) n have l: "length (matchups s1) = 1" by simp
  then have "length [B] = length (matchups s1) \<and> TIE \<notin> set [B]" by simp
  with s1(4) obtain s2 where "apply_votes [B] s1 = Inr s2"
    "length (winners_of s2) = (length (winners_of round_end_example) + 1) div 2"
    by blast
  with n have "apply_votes [B] s1 = Inr s2 \<and> length (winners_of s2) = 1" by simp
  with s1(1,2) l round_end_fields(4)
  have "\<exists>s1 v. display_match rev (Some round_end_example) = Inr (Some s1, v) \<and>
      round_no s1 = 2 \<and> length (matchups s1) = 1 \<and>
      (\<exists>s2. apply_votes [B] s1 = Inr s2 \<and> length (winners_of s2) = 1)"
    by auto
  with round_end_example_reachable sh round_end_fields(2) n round_end_example_vote st
  show ?thesis by blast
qed

text \<open>
  The status of an item does go back. In the bracket of four, after the first match item
  \<open>a.png\<close> is a winner; the vote on the second match ends the round, and line 168
  sets the winners back to active for the next round.
\<close>

theorem bracket_progress_counterexample:
  "bracket_reachable mid_example \<and>
   status_of mid_example ''a.png'' = Some Winner \<and>
   (\<exists>s' v. vote A (\<lambda>xs. xs) (Some mid_example) = Inr (Some s', v) \<and>
      status_of s' ''a.png'' = Some Active)"
proof -
  have a: "status_of mid_example ''a.png'' = Some Winner"
    by (simp add: status_of_def mid_example_def bracket_example_def bracket_player_def
        blank_player_def)
  have n: "length (winners_of round_end_example) \<noteq> 1" unfolding round_end_winners by simp
  have v: "vote A (\<lambda>xs. xs) (Some mid_example) =
      Inr (Some (advance_round (\<lambda>xs. xs) round_end_example),
           show_bracket_match (advance_round (\<lambda>xs. xs) round_end_example) hidden_view)"
    by (simp add: vote_def round_end_example_vote display_advance[OF round_end_fields(1,2) n])
  have "status_of (advance_round (\<lambda>xs. xs) round_end_example) ''a.png'' = Some Active"
    unfolding advance_round_status[OF round_end_fields(3) identity_shuffle] round_end_winners
    by simp
  with v a mid_example_reachable show ?thesis by blast
qed


end
